theory Spec2Isabelle
  imports Complex_Main "HOL-Library.Log_Nat" "HOL-Library.Stream" "HOL-Library.Multiset"
begin

section \<open>JavaScript numbers\<close>

text \<open>
  Every number of the program is an IEEE 754 binary64 value. A finite one is kept as the
  rational it denotes, and the results of \<^verbatim>\<open>/\<close>, \<^verbatim>\<open>*\<close> and \<^verbatim>\<open>-\<close> are rounded to
  the nearest binary64 value, ties to the even significand, as the language does. The two
  zeros are one value here: the program never tells them apart (it compares with
  \<^verbatim>\<open>===\<close>, \<^verbatim>\<open>>=\<close> and \<^verbatim>\<open><\<close> and prints), and its only zero divisor is an array length,
  which is the positive zero.
\<close>

datatype jsnum = NaN | PosInf | NegInf | Num rat

text \<open>\<open>ilog2 x\<close> is the binary exponent of a positive rational: the \<open>e\<close> with
  \<open>2\<^sup>e \<le> x < 2\<^sup>e\<^sup>+\<^sup>1\<close>.\<close>

definition ilog2 :: "rat \<Rightarrow> int" where
  "ilog2 x =
     (if 1 \<le> x then bitlen \<lfloor>x\<rfloor> - 1 else - bitlen (\<lceil>1 / x\<rceil> - 1))"

definition round_half_even :: "rat \<Rightarrow> int" where
  "round_half_even m =
     (let f = \<lfloor>m\<rfloor>; d = m - of_int f
      in if d < 1 / 2 then f else if 1 / 2 < d then f + 1 else if even f then f else f + 1)"

text \<open>The unit in the last place of the binary64 values around a positive \<open>a\<close>: 53
  significant bits, and the fixed spacing \<open>2\<^sup>-\<^sup>1\<^sup>0\<^sup>7\<^sup>4\<close> of the subnormal range.\<close>

definition ulp :: "rat \<Rightarrow> rat" where
  "ulp a = 2 powi (max (ilog2 a) (- 1022) - 52)"

definition round_mag :: "rat \<Rightarrow> rat" where
  "round_mag a = of_int (round_half_even (a / ulp a)) * ulp a"

definition to_double :: "rat \<Rightarrow> jsnum" where
  "to_double x =
     (if x = 0 then Num 0
      else if 2 ^ 1024 \<le> round_mag \<bar>x\<bar> then (if 0 < x then PosInf else NegInf)
      else Num (sgn x * round_mag \<bar>x\<bar>))"

text \<open>The arithmetic operators, with the special cases of IEEE 754.\<close>

fun js_div :: "jsnum \<Rightarrow> jsnum \<Rightarrow> jsnum" where
  "js_div (Num a) (Num b) =
     (if b = 0 then (if a = 0 then NaN else if 0 < a then PosInf else NegInf)
      else to_double (a / b))"
| "js_div NaN _ = NaN"
| "js_div _ NaN = NaN"
| "js_div (Num a) _ = Num 0"
| "js_div PosInf (Num b) = (if 0 \<le> b then PosInf else NegInf)"
| "js_div NegInf (Num b) = (if 0 \<le> b then NegInf else PosInf)"
| "js_div _ _ = NaN"

fun js_mul :: "jsnum \<Rightarrow> jsnum \<Rightarrow> jsnum" where
  "js_mul (Num a) (Num b) = to_double (a * b)"
| "js_mul NaN _ = NaN"
| "js_mul _ NaN = NaN"
| "js_mul PosInf (Num b) = (if b = 0 then NaN else if 0 < b then PosInf else NegInf)"
| "js_mul NegInf (Num b) = (if b = 0 then NaN else if 0 < b then NegInf else PosInf)"
| "js_mul (Num a) PosInf = (if a = 0 then NaN else if 0 < a then PosInf else NegInf)"
| "js_mul (Num a) NegInf = (if a = 0 then NaN else if 0 < a then NegInf else PosInf)"
| "js_mul PosInf PosInf = PosInf"
| "js_mul NegInf NegInf = PosInf"
| "js_mul _ _ = NegInf"

fun js_sub :: "jsnum \<Rightarrow> jsnum \<Rightarrow> jsnum" where
  "js_sub (Num a) (Num b) = to_double (a - b)"
| "js_sub NaN _ = NaN"
| "js_sub _ NaN = NaN"
| "js_sub PosInf PosInf = NaN"
| "js_sub NegInf NegInf = NaN"
| "js_sub PosInf _ = PosInf"
| "js_sub NegInf _ = NegInf"
| "js_sub _ PosInf = NegInf"
| "js_sub _ NegInf = PosInf"

text \<open>\<^verbatim>\<open>a >= b\<close>, \<^verbatim>\<open>a < b\<close> and \<^verbatim>\<open>a === b\<close> on numbers: every comparison with
  \<^verbatim>\<open>NaN\<close> is false.\<close>

fun js_lt :: "jsnum \<Rightarrow> jsnum \<Rightarrow> bool" where
  "js_lt (Num a) (Num b) = (a < b)"
| "js_lt NaN _ = False"
| "js_lt _ NaN = False"
| "js_lt _ NegInf = False"
| "js_lt PosInf _ = False"
| "js_lt _ _ = True"

definition js_ge :: "jsnum \<Rightarrow> jsnum \<Rightarrow> bool" where
  "js_ge a b = (a \<noteq> NaN \<and> b \<noteq> NaN \<and> \<not> js_lt a b)"

definition js_strict_eq :: "jsnum \<Rightarrow> jsnum \<Rightarrow> bool" where
  "js_strict_eq a b = (a \<noteq> NaN \<and> a = b)"

text \<open>\<^verbatim>\<open>Math.round\<close> goes to the nearest integer, a half upwards; \<^verbatim>\<open>Math.floor\<close>
  goes down. Both results are binary64 values again, and neither changes \<^verbatim>\<open>NaN\<close> or
  an infinity.\<close>

fun Math_round :: "jsnum \<Rightarrow> jsnum" where
  "Math_round (Num x) = Num (of_int \<lfloor>x + 1 / 2\<rfloor>)"
| "Math_round v = v"

fun Math_floor :: "jsnum \<Rightarrow> jsnum" where
  "Math_floor (Num x) = Num (of_int \<lfloor>x\<rfloor>)"
| "Math_floor v = v"

text \<open>\<^verbatim>\<open>xs[i]\<close> for a number \<open>i\<close>: the element when \<open>i\<close> is an index of the array,
  \<^verbatim>\<open>undefined\<close> (\<open>None\<close>) otherwise.\<close>

fun array_index :: "jsnum \<Rightarrow> nat option" where
  "array_index (Num x) = (if 0 \<le> x \<and> x = of_int \<lfloor>x\<rfloor> then Some (nat \<lfloor>x\<rfloor>) else None)"
| "array_index v = None"

definition js_nth :: "'a list \<Rightarrow> jsnum \<Rightarrow> 'a option" where
  "js_nth xs i =
     (case array_index i of None \<Rightarrow> None
      | Some k \<Rightarrow> if k < length xs then Some (xs ! k) else None)"

section \<open>Input lines: \<^verbatim>\<open>src/input.js\<close>\<close>

text \<open>
  A line typed by the user is a list of UTF-16 code units, since \<^verbatim>\<open>trim\<close> and
  \<^verbatim>\<open>parseInt\<close> look at code units. \<open>line\<close> writes an ASCII line. The texts that the
  program only stores, compares and prints (questions, options, messages) are strings.
\<close>

type_synonym jsstring = "nat list"

definition line :: "string \<Rightarrow> jsstring" where
  "line s = map of_char s"

text \<open>The white space and line terminator code units of the language: what
  \<^verbatim>\<open>String.prototype.trim\<close> removes and \<^verbatim>\<open>parseInt\<close> skips.\<close>

definition is_white_space :: "nat \<Rightarrow> bool" where
  "is_white_space c \<longleftrightarrow>
     c \<in> {9, 10, 11, 12, 13, 32, 160, 5760, 8232, 8233, 8239, 8287, 12288, 65279}
     \<or> (8192 \<le> c \<and> c \<le> 8202)"

definition trim :: "jsstring \<Rightarrow> jsstring" where
  "trim s = rev (dropWhile is_white_space (rev (dropWhile is_white_space s)))"

definition is_digit :: "nat \<Rightarrow> bool" where
  "is_digit c \<longleftrightarrow> 48 \<le> c \<and> c \<le> 57"

definition digits_value :: "jsstring \<Rightarrow> int" where
  "digits_value ds = foldl (\<lambda>acc c. 10 * acc + (int c - 48)) 0 ds"

text \<open>
  \<^verbatim>\<open>parseInt(s, 10)\<close>: skip leading white space, take an optional sign, then the longest
  prefix of decimal digits; no digit gives \<^verbatim>\<open>NaN\<close>, and whatever follows the digits is
  ignored. The value is the binary64 number nearest to the integer read (the language
  lets an engine replace digits after the 20th by zeros; the exact integer is taken here).
\<close>

definition parseInt :: "jsstring \<Rightarrow> jsnum" where
  "parseInt s =
     (let S = dropWhile is_white_space s;
          sign = (if S \<noteq> [] \<and> hd S = 45 then - 1 else 1);
          S' = (if S \<noteq> [] \<and> (hd S = 43 \<or> hd S = 45) then tl S else S);
          Z = takeWhile is_digit S'
      in if Z = [] then NaN else to_double (of_int (sign * digits_value Z)))"

text \<open>
  What the program writes to the console, kept as events. The input is the stream of the
  lines that the user types, one for each \<^verbatim>\<open>rl.question\<close>.
\<close>

datatype console =
    ShowQuestion string
  | ShowOption nat string
  | YourChoice
  | PleaseEnter nat
  | Correct
  | Incorrect "string option"
  | Explanation string

text \<open>\<^verbatim>\<open>prompt\<close> asks and resolves to the trimmed line.\<close>

definition prompt :: "jsstring stream \<Rightarrow> jsstring \<times> jsstring stream" where
  "prompt rl = (trim (shd rl), stl rl)"

text \<open>
  The \<^verbatim>\<open>while (true)\<close> loop of \<^verbatim>\<open>select\<close>. It may run forever: \<open>None\<close> is the call
  that never returns. The object returned is the pair of \<^verbatim>\<open>index\<close> and \<^verbatim>\<open>value\<close>; the
  result carries the rest of the input and the console so far.
\<close>

partial_function (option) select_loop ::
  "jsstring stream \<Rightarrow> string list \<Rightarrow> console list \<Rightarrow>
   ((jsnum \<times> string option) \<times> jsstring stream \<times> console list) option" where
  "select_loop rl opts out =
     (case prompt rl of (answer, rl') \<Rightarrow>
        (let index = js_sub (parseInt answer) (Num 1) in
         if js_ge index (Num 0) \<and> js_lt index (Num (of_nat (length opts)))
         then Some ((index, js_nth opts index), rl', out @ [YourChoice])
         else select_loop rl' opts (out @ [YourChoice, PleaseEnter (length opts)])))"

definition select ::
  "jsstring stream \<Rightarrow> string \<Rightarrow> string list \<Rightarrow>
   ((jsnum \<times> string option) \<times> jsstring stream \<times> console list) option" where
  "select rl qtext opts =
     select_loop rl opts
       (ShowQuestion qtext # map (\<lambda>(i, option). ShowOption (i + 1) option) (enumerate 0 opts))"

text \<open>
  Names for the two expressions of the loop body: the \<^verbatim>\<open>index\<close> computed from a typed
  line, and the test \<^verbatim>\<open>index >= 0 && index < options.length\<close>.
\<close>

definition choice_index :: "jsstring \<Rightarrow> jsnum" where
  "choice_index l = js_sub (parseInt (trim l)) (Num 1)"

definition accepted :: "string list \<Rightarrow> jsstring \<Rightarrow> bool" where
  "accepted opts l \<longleftrightarrow>
     js_ge (choice_index l) (Num 0) \<and> js_lt (choice_index l) (Num (of_nat (length opts)))"

text \<open>
  The integer that \<^verbatim>\<open>parseInt\<close> reads at the start of a string: the optional sign and the
  longest run of digits after the leading white space, whatever follows them; \<open>None\<close>
  when there is no digit. A line is taken by the loop when this integer is between 1 and
  the number of options (shown below for every list an array can hold).
\<close>

definition leading_integer :: "jsstring \<Rightarrow> int option" where
  "leading_integer s =
     (let S = dropWhile is_white_space s;
          sign = (if S \<noteq> [] \<and> hd S = 45 then - 1 else 1);
          S' = (if S \<noteq> [] \<and> (hd S = 43 \<or> hd S = 45) then tl S else S);
          Z = takeWhile is_digit S'
      in if Z = [] then None else Some (sign * digits_value Z))"

definition prefix_choice :: "string list \<Rightarrow> jsstring \<Rightarrow> bool" where
  "prefix_choice opts l \<longleftrightarrow>
     (case leading_integer (trim l) of
        None \<Rightarrow> False
      | Some z \<Rightarrow> 1 \<le> z \<and> z \<le> int (length opts))"

text \<open>
  The specification's condition on a typed line, in its words: the input parses to an
  integer between 1 and the number of options. An input is an integer when, the white
  space around it apart, the whole of it is a decimal numeral: an optional sign and then
  digits only.
\<close>

definition spec_integer :: "jsstring \<Rightarrow> int option" where
  "spec_integer s =
     (let sign = (if s \<noteq> [] \<and> hd s = 45 then - 1 else 1);
          ds = (if s \<noteq> [] \<and> (hd s = 43 \<or> hd s = 45) then tl s else s)
      in if ds \<noteq> [] \<and> list_all is_digit ds then Some (sign * digits_value ds) else None)"

definition spec_valid_choice :: "string list \<Rightarrow> jsstring \<Rightarrow> bool" where
  "spec_valid_choice opts l \<longleftrightarrow>
     (case spec_integer (trim l) of
        None \<Rightarrow> False
      | Some z \<Rightarrow> 1 \<le> z \<and> z \<le> int (length opts))"

section \<open>The quiz: \<^verbatim>\<open>src/quiz.js\<close>\<close>

subsection \<open>\<^verbatim>\<open>shuffle\<close>\<close>

text \<open>
  Arrays are objects with an identity, and \<^verbatim>\<open>shuffle\<close> is about which array it writes
  to. The store is the list of all arrays, an array's address its position in it.
  \<^verbatim>\<open>Math.random()\<close> is a stream of numbers, one for each call.

  \<^verbatim>\<open>[result[i], result[j]] = [result[j], result[i]]\<close> reads both elements and then
  writes \<open>i\<close> and \<open>j\<close>. With an index outside the array the language would write
  \<^verbatim>\<open>undefined\<close> into it; that outcome is \<open>None\<close> here.
\<close>

type_synonym 'a store = "'a list list"

definition swap :: "'a list \<Rightarrow> nat \<Rightarrow> jsnum \<Rightarrow> 'a list option" where
  "swap result i j =
     (case array_index j of None \<Rightarrow> None
      | Some k \<Rightarrow>
          if i < length result \<and> k < length result
          then Some (result[i := result ! k, k := result ! i]) else None)"

text \<open>The \<^verbatim>\<open>for\<close> loop, from \<open>i = result.length - 1\<close> down to \<open>1\<close>.\<close>

fun shuffle_loop :: "nat \<Rightarrow> rat stream \<Rightarrow> nat \<Rightarrow> 'a store \<Rightarrow> 'a store option" where
  "shuffle_loop 0 rnd result h = Some h"
| "shuffle_loop (Suc n) rnd result h =
     (let i = Suc n;
          j = Math_floor (js_mul (Num (shd rnd)) (Num (of_nat (i + 1))))
      in case swap (h ! result) i j of None \<Rightarrow> None
         | Some xs \<Rightarrow> shuffle_loop n (stl rnd) result (h[result := xs]))"

text \<open>\<^verbatim>\<open>shuffle(array)\<close> copies the array to a new address, shuffles the copy and
  returns its address. An address outside the store is no array: \<open>None\<close>.\<close>

definition shuffle :: "rat stream \<Rightarrow> 'a store \<Rightarrow> nat \<Rightarrow> (nat \<times> 'a store) option" where
  "shuffle rnd h array =
     (if array < length h then
        (let result = length h; h' = h @ [h ! array]
         in case shuffle_loop (length (h' ! result) - 1) rnd result h' of None \<Rightarrow> None
            | Some h'' \<Rightarrow> Some (result, h''))
      else None)"

subsection \<open>The session\<close>

record Question =
  question :: string
  options :: "string list"
  answer :: nat
  explanation :: "string option"

record AnswerRecord =
  question :: string
  userAnswer :: jsnum
  correctAnswer :: nat
  isCorrect :: bool

record Quiz =
  questions :: "Question list"
  categoryName :: string
  currentIndex :: nat
  score :: nat
  answers :: "AnswerRecord list"

text \<open>The constructor shuffles the questions it is given: the session holds the new
  array, here by its contents.\<close>

definition Quiz_new :: "rat stream \<Rightarrow> Question list \<Rightarrow> string \<Rightarrow> Quiz option" where
  "Quiz_new rnd qs name =
     (case shuffle rnd [qs] 0 of None \<Rightarrow> None
      | Some (result, h) \<Rightarrow>
          Some \<lparr>questions = h ! result, categoryName = name, currentIndex = 0, score = 0,
                answers = []\<rparr>)"

definition currentQuestion :: "Quiz \<Rightarrow> Question option" where
  "currentQuestion s =
     (if currentIndex s < length (questions s) then Some (questions s ! currentIndex s)
      else None)"

definition totalQuestions :: "Quiz \<Rightarrow> nat" where
  "totalQuestions s = length (questions s)"

definition isComplete :: "Quiz \<Rightarrow> bool" where
  "isComplete s \<longleftrightarrow> currentIndex s \<ge> length (questions s)"

definition progress :: "Quiz \<Rightarrow> jsnum" where
  "progress s =
     Math_round (js_mul (js_div (Num (of_nat (currentIndex s)))
                                (Num (of_nat (length (questions s))))) (Num 100))"

text \<open>
  \<^verbatim>\<open>askQuestion\<close> after \<^verbatim>\<open>select\<close> has returned (lines 88 to 113): the only place
  where the session changes. The specification calls it \<^verbatim>\<open>submitAnswer\<close>.
\<close>

definition submitAnswer :: "Quiz \<Rightarrow> Question \<Rightarrow> jsnum \<Rightarrow> bool \<times> Quiz \<times> console list" where
  "submitAnswer s q index =
     (let isCorrect = js_strict_eq index (Num (of_nat (answer q)));
          s1 = s\<lparr>answers := answers s @
                 [\<lparr>question = Question.question q, userAnswer = index,
                   correctAnswer = answer q, isCorrect = isCorrect\<rparr>]\<rparr>;
          s2 = (if isCorrect then s1\<lparr>score := score s1 + 1\<rparr> else s1);
          out = (if isCorrect then [Correct]
                 else [Incorrect (js_nth (options q) (Num (of_nat (answer q))))])
                @ (case explanation q of None \<Rightarrow> [] | Some e \<Rightarrow> if e = [] then [] else [Explanation e])
      in (isCorrect, s2\<lparr>currentIndex := currentIndex s2 + 1\<rparr>, out))"

text \<open>
  \<^verbatim>\<open>askQuestion(rl)\<close>. Without a current question it returns \<^verbatim>\<open>false\<close> at once. The
  progress bar and the position line it prints first are display only and left out, and
  so is the styling of the texts by \<^verbatim>\<open>src/colors.js\<close>.
\<close>

definition askQuestion ::
  "Quiz \<Rightarrow> jsstring stream \<Rightarrow> (bool \<times> Quiz \<times> jsstring stream \<times> console list) option" where
  "askQuestion s rl =
     (case currentQuestion s of None \<Rightarrow> Some (False, s, rl, [])
      | Some q \<Rightarrow>
          (case select rl (Question.question q) (options q) of None \<Rightarrow> None
           | Some ((index, value), rl', out) \<Rightarrow>
               (case submitAnswer s q index of
                  (result, s', out') \<Rightarrow> Some (result, s', rl', out @ out'))))"

subsection \<open>\<^verbatim>\<open>showResults\<close>\<close>

definition percentage :: "Quiz \<Rightarrow> jsnum" where
  "percentage s =
     Math_round (js_mul (js_div (Num (of_nat (score s)))
                                (Num (of_nat (totalQuestions s)))) (Num 100))"

text \<open>The performance message, chosen by the \<^verbatim>\<open>if\<close> chain. The specification names
  the five outcomes perfect, great, good, fair and needs practice.\<close>

definition performance :: "jsnum \<Rightarrow> string" where
  "performance p =
     (if js_strict_eq p (Num 100) then ''Perfect score! Amazing!''
      else if js_ge p (Num 80) then ''Great job! Well done!''
      else if js_ge p (Num 60) then ''Good effort! Keep learning!''
      else if js_ge p (Num 40) then ''Not bad! Room for improvement.''
      else ''Keep practicing! You'' @ [CHR 0x27] @ ''ll get better!'')"

text \<open>
  The percentage and the tiers in the specification's words: the percentage is
  \<open>round(100 * score / total)\<close> in exact arithmetic, a half going up, and the table maps
  100 to perfect, 80 to 99 to great, 60 to 79 to good, 40 to 59 to fair and 0 to 39 to
  needs practice. The code has no names for the tiers: a tier stands for its message.
\<close>

definition spec_percentage :: "nat \<Rightarrow> nat \<Rightarrow> nat" where
  "spec_percentage score' total' = nat \<lfloor>100 * rat_of_nat score' / rat_of_nat total' + 1 / 2\<rfloor>"

datatype tier = Perfect | Great | Good | Fair | Needs_practice

definition tier_table :: "nat \<Rightarrow> tier option" where
  "tier_table p =
     (if p = 100 then Some Perfect
      else if 80 \<le> p \<and> p \<le> 99 then Some Great
      else if 60 \<le> p \<and> p \<le> 79 then Some Good
      else if 40 \<le> p \<and> p \<le> 59 then Some Fair
      else if p \<le> 39 then Some Needs_practice
      else None)"

fun message_of :: "tier \<Rightarrow> string" where
  "message_of Perfect = ''Perfect score! Amazing!''"
| "message_of Great = ''Great job! Well done!''"
| "message_of Good = ''Good effort! Keep learning!''"
| "message_of Fair = ''Not bad! Room for improvement.''"
| "message_of Needs_practice = ''Keep practicing! You'' @ [CHR 0x27] @ ''ll get better!''"

datatype error = TypeError

text \<open>
  One entry of the review: the answer, the question that \<^verbatim>\<open>find\<close> returns for its
  text, and the two option texts printed. \<^verbatim>\<open>find\<close> returns \<^verbatim>\<open>undefined\<close> when no
  question has the text, and reading \<^verbatim>\<open>q.options\<close> then throws.
\<close>

record ReviewEntry =
  reviewed :: AnswerRecord
  found :: Question
  yourAnswer :: "string option"
  correct :: "string option"

definition review_entry :: "Quiz \<Rightarrow> AnswerRecord \<Rightarrow> error + ReviewEntry" where
  "review_entry s a =
     (case find (\<lambda>q. Question.question q = AnswerRecord.question a) (questions s) of
        None \<Rightarrow> Inl TypeError
      | Some q \<Rightarrow>
          Inr \<lparr>reviewed = a, found = q,
               yourAnswer = js_nth (options q) (userAnswer a),
               correct = js_nth (options q) (Num (of_nat (correctAnswer a)))\<rparr>)"

fun review_all :: "Quiz \<Rightarrow> AnswerRecord list \<Rightarrow> error + ReviewEntry list" where
  "review_all s [] = Inr []"
| "review_all s (a # as) =
     (case review_entry s a of Inl e \<Rightarrow> Inl e
      | Inr r \<Rightarrow> (case review_all s as of Inl e \<Rightarrow> Inl e | Inr rs \<Rightarrow> Inr (r # rs)))"

record Results =
  category :: string
  final_score :: nat
  total :: nat
  percent :: jsnum
  message :: string
  review :: "ReviewEntry list"

definition showResults :: "Quiz \<Rightarrow> error + Results" where
  "showResults s =
     (let p = percentage s;
          incorrect = filter (\<lambda>a. \<not> isCorrect a) (answers s)
      in case review_all s incorrect of Inl e \<Rightarrow> Inl e
         | Inr rs \<Rightarrow>
             Inr \<lparr>category = categoryName s, final_score = score s, total = totalQuestions s,
                  percent = p, message = performance p, review = rs\<rparr>)"

subsection \<open>Reachable sessions\<close>

text \<open>A session is made by the constructor and changed by \<^verbatim>\<open>askQuestion\<close> only.\<close>

inductive reachable :: "Quiz \<Rightarrow> bool" where
  new: "Quiz_new rnd qs name = Some s \<Longrightarrow> reachable s"
| ask: "reachable s \<Longrightarrow> askQuestion s rl = Some (r, s', rl', out) \<Longrightarrow> reachable s'"

text \<open>The record at position \<open>i\<close> of the answer log was made from the question at
  position \<open>i\<close>: its originating question. These are the positions of the wrong answers.\<close>

definition incorrect_positions :: "Quiz \<Rightarrow> nat list" where
  "incorrect_positions s = filter (\<lambda>i. \<not> isCorrect (answers s ! i)) [0..<length (answers s)]"

subsection \<open>Sample data\<close>

definition sample_question :: Question where
  "sample_question =
     \<lparr>Question.question = ''What does typeof null return?'',
      options = [''null'', ''object'', ''undefined''], answer = 1, explanation = None\<rparr>"

definition sample_quiz :: Quiz where
  "sample_quiz =
     \<lparr>questions = [sample_question], categoryName = ''JavaScript'', currentIndex = 0,
      score = 0, answers = []\<rparr>"

text \<open>The sample session after its one question was answered with the second option.\<close>

definition answered_quiz :: Quiz where
  "answered_quiz =
     sample_quiz\<lparr>answers :=
         [\<lparr>question = ''What does typeof null return?'', userAnswer = Num 1,
           correctAnswer = 1, isCorrect = True\<rparr>],
       score := 1, currentIndex := 1\<rparr>"

text \<open>The sample session after its one question was answered with the first option.\<close>

definition wrong_quiz :: Quiz where
  "wrong_quiz =
     sample_quiz\<lparr>answers :=
         [\<lparr>question = ''What does typeof null return?'', userAnswer = Num 0,
           correctAnswer = 1, isCorrect = False\<rparr>],
       currentIndex := 1\<rparr>"

definition empty_quiz :: Quiz where
  "empty_quiz =
     \<lparr>questions = [], categoryName = ''JavaScript'', currentIndex = 0, score = 0, answers = []\<rparr>"

text \<open>Two questions with the same text and different options, and the session over them
  after the first was answered right and the second wrong.\<close>

definition twin_a :: Question where
  "twin_a = \<lparr>Question.question = ''Which keyword declares a constant?'',
             options = [''const'', ''var''], answer = 0, explanation = None\<rparr>"

definition twin_b :: Question where
  "twin_b = \<lparr>Question.question = ''Which keyword declares a constant?'',
             options = [''let'', ''final''], answer = 1, explanation = None\<rparr>"

definition twin_start :: Quiz where
  "twin_start =
     \<lparr>questions = [twin_a, twin_b], categoryName = ''JavaScript'', currentIndex = 0, score = 0,
      answers = []\<rparr>"

definition twin_halfway :: Quiz where
  "twin_halfway =
     \<lparr>questions = [twin_a, twin_b], categoryName = ''JavaScript'', currentIndex = 1, score = 1,
      answers =
        [\<lparr>question = ''Which keyword declares a constant?'', userAnswer = Num 0,
          correctAnswer = 0, isCorrect = True\<rparr>]\<rparr>"

definition twin_quiz :: Quiz where
  "twin_quiz =
     \<lparr>questions = [twin_a, twin_b], categoryName = ''JavaScript'', currentIndex = 2, score = 1,
      answers =
        [\<lparr>question = ''Which keyword declares a constant?'', userAnswer = Num 0,
          correctAnswer = 0, isCorrect = True\<rparr>,
         \<lparr>question = ''Which keyword declares a constant?'', userAnswer = Num 0,
          correctAnswer = 1, isCorrect = False\<rparr>]\<rparr>"

text \<open>The session over \<open>n\<close> copies of the sample question after \<open>a\<close> right answers, the
  second option each time, followed by \<open>b\<close> wrong ones, the first option each time.\<close>

definition drill_quiz :: "nat \<Rightarrow> nat \<Rightarrow> nat \<Rightarrow> Quiz" where
  "drill_quiz n a b =
     \<lparr>questions = replicate n sample_question, categoryName = ''JavaScript'',
      currentIndex = a + b, score = a,
      answers =
        replicate a \<lparr>question = ''What does typeof null return?'', userAnswer = Num 1,
                      correctAnswer = 1, isCorrect = True\<rparr>
        @ replicate b \<lparr>question = ''What does typeof null return?'', userAnswer = Num 0,
                        correctAnswer = 1, isCorrect = False\<rparr>\<rparr>"

section \<open>Rounding to binary64\<close>

lemma bitlen_pos: "0 < n \<Longrightarrow> 1 \<le> bitlen n"
  using bitlen_eq_zero_iff [of n] bitlen_nonneg [of n] by linarith

lemma ilog2_ge1:
  assumes "1 \<le> x"
  shows "2 powi ilog2 x \<le> x \<and> x < 2 powi (ilog2 x + 1)"
proof -
  define n where "n = \<lfloor>x\<rfloor>"
  have n: "0 < n" using assms by (simp add: n_def)
  have b: "1 \<le> bitlen n" using n by (rule bitlen_pos)
  have il: "ilog2 x = bitlen n - 1" using assms by (simp add: ilog2_def n_def)
  from bitlen_bounds [OF n] have lo: "2 ^ nat (bitlen n - 1) \<le> n" and hi: "n < 2 ^ nat (bitlen n)"
    by auto
  have "(2::rat) powi (bitlen n - 1) = of_int (2 ^ nat (bitlen n - 1))"
    using b by (simp add: power_int_nonneg_exp)
  also have "\<dots> \<le> of_int n" using lo by (simp only: of_int_le_iff)
  also have "\<dots> \<le> x" by (simp add: n_def)
  finally have 1: "2 powi ilog2 x \<le> x" by (simp add: il)
  have hi': "n + 1 \<le> 2 ^ nat (bitlen n)" using hi by linarith
  have "x < of_int (n + 1)" using floor_correct [of x] by (simp add: n_def)
  also have "\<dots> \<le> of_int (2 ^ nat (bitlen n))" using hi' by (simp only: of_int_le_iff)
  also have "\<dots> = (2::rat) powi (bitlen n)" using b by (simp add: power_int_nonneg_exp)
  finally have 2: "x < 2 powi (ilog2 x + 1)" by (simp add: il)
  from 1 2 show ?thesis ..
qed

lemma ilog2_lt1:
  assumes "0 < x" "x < 1"
  shows "2 powi ilog2 x \<le> x \<and> x < 2 powi (ilog2 x + 1)"
proof -
  define m where "m = \<lceil>1 / x\<rceil> - 1"
  have inv: "1 < 1 / x" using assms by simp
  then have "1 < \<lceil>1 / x\<rceil>" by (simp add: less_ceiling_iff)
  then have m: "0 < m" by (simp add: m_def)
  have b: "1 \<le> bitlen m" using m by (rule bitlen_pos)
  have il: "ilog2 x = - bitlen m" using assms by (simp add: ilog2_def m_def)
  from bitlen_bounds [OF m] have lo: "2 ^ nat (bitlen m - 1) \<le> m" and hi: "m < 2 ^ nat (bitlen m)"
    by auto
  have hi': "m + 1 \<le> 2 ^ nat (bitlen m)" using hi by linarith
  have "1 / x \<le> of_int (m + 1)" by (simp add: m_def)
  also have "\<dots> \<le> of_int (2 ^ nat (bitlen m))" using hi' by (simp only: of_int_le_iff)
  also have "\<dots> = (2::rat) powi (bitlen m)" using b by (simp add: power_int_nonneg_exp)
  finally have "1 / x \<le> 2 powi (bitlen m)" .
  then have "1 \<le> 2 powi (bitlen m) * x" using assms by (simp add: field_simps)
  then have 1: "2 powi (- bitlen m) \<le> x"
    by (simp add: power_int_minus field_simps)
  have "(2::rat) powi (bitlen m - 1) = of_int (2 ^ nat (bitlen m - 1))"
    using b by (simp add: power_int_nonneg_exp)
  also have "\<dots> \<le> of_int m" using lo by (simp only: of_int_le_iff)
  also have "\<dots> < 1 / x" using ceiling_correct [of "1 / x"] by (simp add: m_def)
  finally have "2 powi (bitlen m - 1) < 1 / x" .
  moreover have "(0::rat) < 2 powi (bitlen m - 1)" by simp
  ultimately have "x < 1 / 2 powi (bitlen m - 1)" using assms(1) by (simp add: field_simps)
  also have "\<dots> = 2 powi (- (bitlen m - 1))" by (simp only: power_int_minus_divide)
  finally have 2: "x < 2 powi (- bitlen m + 1)" by simp
  from 1 2 show ?thesis by (simp add: il)
qed

lemma ilog2_bounds:
  assumes "0 < x"
  shows "2 powi ilog2 x \<le> x" and "x < 2 powi (ilog2 x + 1)"
  using ilog2_ge1 [of x] ilog2_lt1 [of x] assms by (cases "1 \<le> x"; simp)+

lemma ilog2_unique:
  assumes "0 < x" "2 powi e \<le> x" "x < 2 powi (e + 1)"
  shows "ilog2 x = e"
proof (rule ccontr)
  assume ne: "ilog2 x \<noteq> e"
  show False
  proof (cases "ilog2 x < e")
    case True
    then have "(2::rat) powi (ilog2 x + 1) \<le> 2 powi e"
      by (intro power_int_increasing) auto
    with ilog2_bounds(2) [OF assms(1)] assms(2) show False by linarith
  next
    case False
    with ne have "e + 1 \<le> ilog2 x" by simp
    then have "(2::rat) powi (e + 1) \<le> 2 powi ilog2 x"
      by (intro power_int_increasing) auto
    with ilog2_bounds(1) [OF assms(1)] assms(3) show False by linarith
  qed
qed

lemma round_half_even_of_int: "round_half_even (of_int n) = n"
  by (simp add: round_half_even_def)

lemma round_half_even_error: "\<bar>of_int (round_half_even m) - m\<bar> \<le> 1 / 2"
proof -
  have "of_int \<lfloor>m\<rfloor> \<le> m" "m < of_int \<lfloor>m\<rfloor> + 1"
    using floor_correct [of m] by simp_all
  then show ?thesis
    by (auto simp add: round_half_even_def Let_def abs_le_iff)
qed

lemma ulp_pos: "0 < ulp a"
  by (simp add: ulp_def)

lemma round_mag_error_ulp: "\<bar>round_mag a - a\<bar> \<le> ulp a / 2"
proof -
  have "round_mag a - a = (of_int (round_half_even (a / ulp a)) - a / ulp a) * ulp a"
    using ulp_pos [of a] by (simp add: round_mag_def field_simps)
  then have "\<bar>round_mag a - a\<bar> = \<bar>of_int (round_half_even (a / ulp a)) - a / ulp a\<bar> * ulp a"
    using ulp_pos [of a] by (simp add: abs_mult)
  also have "\<dots> \<le> 1 / 2 * ulp a"
    using round_half_even_error [of "a / ulp a"] ulp_pos [of a]
    by (intro mult_right_mono) simp_all
  finally show ?thesis by simp
qed

lemma ulp_le:
  assumes "0 < a"
  shows "ulp a \<le> a / 2 ^ 52 + 1 / 2 ^ 1074"
proof (cases "- 1022 \<le> ilog2 a")
  case True
  then have "ulp a = 2 powi (ilog2 a - 52)" by (simp add: ulp_def max_def)
  also have "\<dots> = 2 powi ilog2 a / 2 ^ 52" by (simp add: power_int_diff)
  also have "\<dots> \<le> a / 2 ^ 52" using ilog2_bounds(1) [OF assms] by (simp add: divide_right_mono)
  finally show ?thesis by (simp add: add_increasing2)
next
  case False
  then have "ulp a = 2 powi (- 1074)" by (simp add: ulp_def max_def)
  also have "\<dots> = 1 / 2 ^ 1074" by (simp add: power_int_minus_divide)
  finally show ?thesis using assms by simp
qed

lemma round_mag_error:
  assumes "0 < a"
  shows "\<bar>round_mag a - a\<bar> \<le> a / 2 ^ 53 + 1 / 2 ^ 1075"
proof -
  have "\<bar>round_mag a - a\<bar> \<le> ulp a / 2" by (rule round_mag_error_ulp)
  also have "\<dots> \<le> (a / 2 ^ 52 + 1 / 2 ^ 1074) / 2" using ulp_le [OF assms] by simp
  also have "\<dots> = a / 2 ^ 53 + 1 / 2 ^ 1075" by simp
  finally show ?thesis .
qed

lemma round_mag_nonneg: "0 \<le> a \<Longrightarrow> 0 \<le> round_mag a"
  using ulp_pos [of a] by (simp add: round_mag_def round_half_even_def Let_def)


lemma round_mag_of_int:
  assumes "0 < z" "z \<le> 2 ^ 53"
  shows "round_mag (of_int z) = of_int z"
proof -
  define a :: rat where "a = of_int z"
  have a: "1 \<le> a" "a \<le> 2 ^ 53" "0 < a"
    using assms by (simp_all add: a_def)
  define e where "e = ilog2 a"
  have lo: "2 powi e \<le> a" and hi: "a < 2 powi (e + 1)"
    using ilog2_bounds [OF a(3)] by (simp_all add: e_def)
  have e0: "0 \<le> e"
  proof (rule ccontr)
    assume "\<not> 0 \<le> e"
    then have "(2::rat) powi (e + 1) \<le> 2 powi 0" by (intro power_int_increasing) auto
    with hi a(1) show False by simp
  qed
  have e53: "e \<le> 53"
  proof -
    have "(2::rat) powi e \<le> 2 powi 53" using lo a(2) by simp
    then show ?thesis by (rule power_int_le_imp_le_exp [rotated]) simp_all
  qed
  have u: "ulp a = 2 powi (e - 52)" using e0 by (simp add: ulp_def e_def max_def)
  have "\<exists>k. a / ulp a = of_int k"
  proof (cases "e \<le> 52")
    case True
    have "a / ulp a = a * 2 powi (52 - e)"
      by (simp add: u power_int_diff)
    also have "\<dots> = of_int (z * 2 ^ nat (52 - e))"
      using True by (simp add: a_def power_int_nonneg_exp)
    finally show ?thesis ..
  next
    case False
    with e53 have e: "e = 53" by simp
    with lo a(2) have a53: "a = 2 ^ 53" by simp
    have "ulp a = 2" by (simp add: u e)
    then have "a / ulp a = 2 ^ 53 / 2" by (simp only: a53)
    also have "\<dots> = of_int (2 ^ 52)" by simp
    finally show ?thesis ..
  qed
  then obtain k where k: "a / ulp a = of_int k" ..
  have "round_mag a = of_int k * ulp a"
    by (simp add: round_mag_def k round_half_even_of_int)
  also have "\<dots> = a" using k ulp_pos [of a] by (simp add: field_simps)
  finally show ?thesis by (simp add: a_def)
qed

lemma to_double_of_int:
  assumes "\<bar>z\<bar> \<le> 2 ^ 53"
  shows "to_double (of_int z) = Num (of_int z)"
proof (cases "z = 0")
  case True
  then show ?thesis by (simp add: to_double_def)
next
  case False
  then have z: "0 < \<bar>z\<bar>" by simp
  have r: "round_mag \<bar>of_int z\<bar> = \<bar>of_int z\<bar>"
    using round_mag_of_int [OF z assms] by simp
  have "\<bar>of_int z :: rat\<bar> \<le> 2 ^ 53"
    using assms by (metis of_int_abs of_int_le_iff of_int_numeral of_int_power)
  also have "\<dots> < 2 ^ 1024" by simp
  finally have "\<not> (2::rat) ^ 1024 \<le> \<bar>of_int z\<bar>" by simp
  then show ?thesis using False by (simp add: to_double_def r sgn_mult_abs)
qed

lemma to_double_of_nat:
  "n \<le> 2 ^ 53 \<Longrightarrow> to_double (of_nat n) = Num (of_nat n)"
  using to_double_of_int [of "int n"] by simp

lemma double_below_one:
  assumes "to_double r = Num r" "r < 1"
  shows "r \<le> 1 - 1 / 2 ^ 53"
proof (cases "r < 1 / 2")
  case True
  then show ?thesis by simp
next
  case False
  then have r: "0 < r" "1 / 2 \<le> r" by simp_all
  have "ilog2 r = - 1"
    using r assms(2) by (intro ilog2_unique) simp_all
  then have u: "ulp r = 1 / 2 ^ 53" by (simp add: ulp_def power_int_minus_divide)
  define k where "k = round_half_even (r / ulp r)"
  have "round_mag r = r"
    using assms(1) r(1) by (simp add: to_double_def split: if_splits)
  then have eq: "r = of_int k / 2 ^ 53" by (simp add: round_mag_def k_def u)
  with assms(2) have "(of_int k :: rat) < of_int (2 ^ 53)" by simp
  then have "k < 2 ^ 53" by (simp only: of_int_less_iff)
  then have "k \<le> 2 ^ 53 - 1" by simp
  then have "(of_int k :: rat) \<le> of_int (2 ^ 53 - 1)" by (simp only: of_int_le_iff)
  then show ?thesis by (simp add: eq field_simps)
qed

lemma to_double_0 [simp]: "to_double 0 = Num 0"
  by (simp add: to_double_def)

lemma to_double_1 [simp]: "to_double 1 = Num 1"
  using to_double_of_int [of 1] by simp

lemma to_double_numeral [simp]:
  "(numeral w :: int) \<le> 2 ^ 53 \<Longrightarrow> to_double (numeral w) = Num (numeral w)"
  using to_double_of_int [of "numeral w"] by simp

lemma to_double_neg_numeral [simp]:
  "(numeral w :: int) \<le> 2 ^ 53 \<Longrightarrow> to_double (- numeral w) = Num (- numeral w)"
  using to_double_of_int [of "- numeral w"] by simp

section \<open>Answering a question\<close>

lemma js_strict_eq_of_nat [simp]:
  "js_strict_eq (Num (of_nat k)) (Num (of_nat a)) \<longleftrightarrow> k = a"
  by (simp add: js_strict_eq_def)

text \<open>
  C9, as the code has it. Without a current question \<^verbatim>\<open>askQuestion\<close> takes its first
  line, \<^verbatim>\<open>if (!q) return false\<close>: on a complete session it returns \<^verbatim>\<open>false\<close>, reads
  no input, prints nothing and leaves the session as it is.
\<close>

theorem askQuestion_complete:
  assumes "isComplete s"
  shows "askQuestion s rl = Some (False, s, rl, [])"
  using assms by (simp add: askQuestion_def currentQuestion_def isComplete_def)

theorem askQuestion_complete_witness:
  "isComplete \<lparr>questions = [], categoryName = ''js'', currentIndex = 0, score = 0, answers = []\<rparr>
   \<and> askQuestion \<lparr>questions = [], categoryName = ''js'', currentIndex = 0, score = 0, answers = []\<rparr>
         (sconst (line ''1''))
       = Some (False, \<lparr>questions = [], categoryName = ''js'', currentIndex = 0, score = 0, answers = []\<rparr>,
               sconst (line ''1''), [])"
proof -
  have c: "isComplete \<lparr>questions = [], categoryName = ''js'', currentIndex = 0, score = 0, answers = []\<rparr>"
    by (simp add: isComplete_def)
  from c askQuestion_complete [OF c] show ?thesis by simp
qed

text \<open>
  C9, as the specification states it, fails: called on a session that is complete (one
  question, already answered), \<^verbatim>\<open>askQuestion\<close> returns the ordinary result \<^verbatim>\<open>false\<close>,
  the same value as for a wrong answer.
\<close>

theorem askQuestion_complete_counterexample:
  "isComplete \<lparr>questions = [\<lparr>Question.question = ''Q'', options = [''a'', ''b''], answer = 0, explanation = None\<rparr>],
      categoryName = ''js'', currentIndex = 1, score = 1,
      answers = [\<lparr>question = ''Q'', userAnswer = Num 0, correctAnswer = 0, isCorrect = True\<rparr>]\<rparr>
   \<and> (case askQuestion
          \<lparr>questions = [\<lparr>Question.question = ''Q'', options = [''a'', ''b''], answer = 0, explanation = None\<rparr>],
            categoryName = ''js'', currentIndex = 1, score = 1,
            answers = [\<lparr>question = ''Q'', userAnswer = Num 0, correctAnswer = 0, isCorrect = True\<rparr>]\<rparr>
          (sconst (line ''1''))
        of Some (result, s', rl', out) \<Rightarrow> result = False | None \<Rightarrow> False)"
  by (simp add: isComplete_def askQuestion_def currentQuestion_def)

lemma select_loop_unfold:
  "select_loop rl opts out =
     (if accepted opts (shd rl)
      then Some ((choice_index (shd rl), js_nth opts (choice_index (shd rl))), stl rl,
                 out @ [YourChoice])
      else select_loop (stl rl) opts (out @ [YourChoice, PleaseEnter (length opts)]))"
  by (subst select_loop.simps) (simp add: prompt_def accepted_def choice_index_def Let_def)

lemmas parse_simps = parseInt_def trim_def line_def is_white_space_def is_digit_def
  digits_value_def choice_index_def accepted_def js_ge_def

lemma js_nth_of_nat [simp]:
  "js_nth xs (Num (of_nat k)) = (if k < length xs then Some (xs ! k) else None)"
  by (simp add: js_nth_def)

lemma submitAnswer_of_nat:
  "submitAnswer s q (Num (of_nat k)) =
     (k = answer q,
      s\<lparr>answers := answers s @
           [\<lparr>question = Question.question q, userAnswer = Num (of_nat k),
             correctAnswer = answer q, isCorrect = (k = answer q)\<rparr>],
        score := (if k = answer q then score s + 1 else score s),
        currentIndex := currentIndex s + 1\<rparr>,
      (if k = answer q then [Correct]
       else [Incorrect (if answer q < length (options q) then Some (options q ! answer q) else None)])
      @ (case explanation q of None \<Rightarrow> [] | Some e \<Rightarrow> if e = [] then [] else [Explanation e]))"
  by (simp add: submitAnswer_def Let_def)

text \<open>
  C1. In a session that has a current question, one call of \<^verbatim>\<open>askQuestion\<close> in which
  \<^verbatim>\<open>select\<close> returns the index \<open>k\<close> appends exactly one answer record, whose
  \<^verbatim>\<open>isCorrect\<close> is \<open>k = answer q\<close> for the current question \<open>q\<close>, adds one to the
  score if and only if the answer is correct, adds one to the position, and returns
  whether the answer was correct. The questions and the category stay as they are.
\<close>

theorem askQuestion_records_answer:
  assumes "currentQuestion s = Some q"
    and "select rl (Question.question q) (options q) = Some ((Num (of_nat k), v), rl', out)"
  shows "\<exists>out'. askQuestion s rl =
     Some (k = answer q,
           s\<lparr>answers := answers s @
                [\<lparr>question = Question.question q, userAnswer = Num (of_nat k),
                  correctAnswer = answer q, isCorrect = (k = answer q)\<rparr>],
             score := (if k = answer q then score s + 1 else score s),
             currentIndex := currentIndex s + 1\<rparr>,
           rl', out')"
  using assms by (simp add: askQuestion_def submitAnswer_of_nat)

lemma sample_select_2:
  "select (line ''2'' ## rest) (Question.question sample_question) (options sample_question) =
     Some ((Num 1, Some ''object''), rest,
           [ShowQuestion ''What does typeof null return?'', ShowOption 1 ''null'',
            ShowOption 2 ''object'', ShowOption 3 ''undefined'', YourChoice])"
  apply (simp add: select_def sample_question_def)
  apply (subst select_loop_unfold, simp add: parse_simps)
  apply (simp add: js_nth_def)
  done

text \<open>C1 at the sample session: the second option is typed, and it is the right one.\<close>

theorem askQuestion_records_answer_witness:
  "currentQuestion sample_quiz = Some sample_question
   \<and> select (line ''2'' ## sconst (line ''1'')) (Question.question sample_question)
         (options sample_question)
       = Some ((Num (of_nat 1), Some ''object''), sconst (line ''1''),
           [ShowQuestion ''What does typeof null return?'', ShowOption 1 ''null'',
            ShowOption 2 ''object'', ShowOption 3 ''undefined'', YourChoice])
   \<and> (\<exists>out'. askQuestion sample_quiz (line ''2'' ## sconst (line ''1'')) =
         Some (True,
               answered_quiz,
               sconst (line ''1''), out'))"
proof -
  have c: "currentQuestion sample_quiz = Some sample_question"
    by (simp add: currentQuestion_def sample_quiz_def)
  have s: "select (line ''2'' ## sconst (line ''1'')) (Question.question sample_question)
         (options sample_question)
       = Some ((Num (of_nat 1), Some ''object''), sconst (line ''1''),
           [ShowQuestion ''What does typeof null return?'', ShowOption 1 ''null'',
            ShowOption 2 ''object'', ShowOption 3 ''undefined'', YourChoice])"
    by (simp add: sample_select_2)
  from askQuestion_records_answer [OF c s] c s show ?thesis
    by (simp add: sample_question_def sample_quiz_def answered_quiz_def)
qed

lemma askQuestion_invariant:
  assumes "askQuestion s rl = Some (r, s', rl', out)"
    and "score s \<le> currentIndex s" "currentIndex s \<le> length (questions s)"
    and "length (answers s) = currentIndex s"
  shows "score s' \<le> currentIndex s' \<and> currentIndex s' \<le> length (questions s')
         \<and> length (answers s') = currentIndex s'"
  using assms
  by (auto simp add: askQuestion_def currentQuestion_def submitAnswer_def Let_def
      split: if_splits option.splits prod.splits)

lemma shuffle_loop_length:
  "shuffle_loop n rnd r h = Some h' \<Longrightarrow> length h' = length h"
  by (induction n arbitrary: rnd h) (auto simp add: Let_def split: option.splits)

lemma Quiz_new_fields:
  assumes "Quiz_new rnd qs name = Some s"
  shows "currentIndex s = 0" "score s = 0" "answers s = []" "categoryName s = name"
  using assms by (auto simp add: Quiz_new_def split: option.splits)

lemma reachable_bounds:
  assumes "reachable s"
  shows "score s \<le> currentIndex s" "currentIndex s \<le> length (questions s)"
    "length (answers s) = currentIndex s"
proof -
  have "score s \<le> currentIndex s \<and> currentIndex s \<le> length (questions s)
         \<and> length (answers s) = currentIndex s"
    using assms
  proof (induction rule: reachable.induct)
    case (new rnd qs name s)
    then show ?case by (simp add: Quiz_new_fields)
  next
    case (ask s rl r s' rl' out)
    then show ?case using askQuestion_invariant [of s rl r s' rl' out] by simp
  qed
  then show "score s \<le> currentIndex s" "currentIndex s \<le> length (questions s)"
    "length (answers s) = currentIndex s"
    by simp_all
qed

text \<open>
  C2. Every reachable session (the one the constructor returns, and every one that a
  call of \<^verbatim>\<open>askQuestion\<close> produces) has \<open>score \<le> position \<le> number of questions\<close>, and
  its answer log is as long as its position.
\<close>

theorem session_invariant:
  assumes "reachable s"
  shows "score s \<le> currentIndex s \<and> currentIndex s \<le> length (questions s)
         \<and> length (answers s) = currentIndex s"
  using assms
proof (induction rule: reachable.induct)
  case (new rnd qs name s)
  then have "currentIndex s = 0" "score s = 0" "answers s = []"
    by (rule Quiz_new_fields)+
  then show ?case by simp
next
  case (ask s rl r s' rl' out)
  from ask.hyps(2) ask.IH show ?case
    by (intro askQuestion_invariant [of s rl r s' rl' out]) simp_all
qed

lemma Quiz_new_sample:
  "Quiz_new (sconst (1 / 2)) [sample_question] ''JavaScript'' = Some sample_quiz"
  by (simp add: Quiz_new_def shuffle_def sample_quiz_def)

lemma askQuestion_sample:
  "askQuestion sample_quiz (line ''2'' ## rest) =
     Some (True,
           answered_quiz,
           rest,
           [ShowQuestion ''What does typeof null return?'', ShowOption 1 ''null'',
            ShowOption 2 ''object'', ShowOption 3 ''undefined'', YourChoice, Correct])"
proof -
  have "currentQuestion sample_quiz = Some sample_question"
    by (simp add: currentQuestion_def sample_quiz_def)
  moreover have "submitAnswer sample_quiz sample_question (Num 1) =
     (True, answered_quiz, [Correct])"
    using submitAnswer_of_nat [of sample_quiz sample_question 1]
    by (simp add: sample_question_def sample_quiz_def answered_quiz_def)
  ultimately show ?thesis
    by (simp add: askQuestion_def sample_select_2)
qed

lemma reachable_answered_quiz: "reachable answered_quiz"
  by (rule reachable.ask [OF reachable.new [OF Quiz_new_sample]
        askQuestion_sample [of "sconst (line ''1'')"]])

text \<open>C2 at the sample session after its one question has been answered.\<close>

theorem session_invariant_witness:
  "reachable answered_quiz
   \<and> score answered_quiz \<le> currentIndex answered_quiz
   \<and> currentIndex answered_quiz \<le> length (questions answered_quiz)
   \<and> length (answers answered_quiz) = currentIndex answered_quiz"
  using session_invariant [OF reachable_answered_quiz] reachable_answered_quiz by simp

section \<open>The review of wrong answers\<close>

lemma askQuestion_cases:
  assumes "askQuestion s rl = Some (r, s', rl', out)"
  shows "s' = s \<or>
    (\<exists>q idx. currentQuestion s = Some q \<and>
       s' = s\<lparr>answers := answers s @
              [\<lparr>question = Question.question q, userAnswer = idx, correctAnswer = answer q,
                isCorrect = js_strict_eq idx (Num (of_nat (answer q)))\<rparr>],
            score := (if js_strict_eq idx (Num (of_nat (answer q))) then score s + 1 else score s),
            currentIndex := currentIndex s + 1\<rparr>)"
  using assms
  by (auto simp add: askQuestion_def submitAnswer_def Let_def
      split: if_splits option.splits prod.splits)

lemma reachable_log:
  assumes "reachable s"
  shows "map AnswerRecord.question (answers s)
         = map Question.question (take (currentIndex s) (questions s))"
  using assms
proof (induction rule: reachable.induct)
  case (new rnd qs name s)
  then show ?case by (simp add: Quiz_new_fields)
next
  case (ask s rl r s' rl' out)
  from askQuestion_cases [OF ask.hyps(2)] show ?case
  proof
    assume "s' = s"
    with ask.IH show ?thesis by simp
  next
    assume "\<exists>q idx. currentQuestion s = Some q \<and>
       s' = s\<lparr>answers := answers s @
              [\<lparr>question = Question.question q, userAnswer = idx, correctAnswer = answer q,
                isCorrect = js_strict_eq idx (Num (of_nat (answer q)))\<rparr>],
            score := (if js_strict_eq idx (Num (of_nat (answer q))) then score s + 1 else score s),
            currentIndex := currentIndex s + 1\<rparr>"
    then obtain q idx where q: "currentQuestion s = Some q"
      and s': "s' = s\<lparr>answers := answers s @
              [\<lparr>question = Question.question q, userAnswer = idx, correctAnswer = answer q,
                isCorrect = js_strict_eq idx (Num (of_nat (answer q)))\<rparr>],
            score := (if js_strict_eq idx (Num (of_nat (answer q))) then score s + 1 else score s),
            currentIndex := currentIndex s + 1\<rparr>"
      by blast
    from q have lt: "currentIndex s < length (questions s)" and qq: "q = questions s ! currentIndex s"
      by (auto simp add: currentQuestion_def split: if_splits)
    show ?thesis
      using ask.IH lt by (simp add: s' qq take_Suc_conv_app_nth)
  qed
qed

lemma find_text_Some:
  assumes "t \<in> set (map Question.question qs)"
  shows "\<exists>q. find (\<lambda>q. Question.question q = t) qs = Some q"
  using assms by (cases "find (\<lambda>q. Question.question q = t) qs") (auto simp add: find_None_iff)

lemma review_all_Inr:
  assumes "set (map AnswerRecord.question as) \<subseteq> set (map Question.question (questions s))"
  shows "\<exists>rs. review_all s as = Inr rs \<and> map reviewed rs = as
    \<and> map (\<lambda>e. Some (found e)) rs
        = map (\<lambda>a. find (\<lambda>q. Question.question q = AnswerRecord.question a) (questions s)) as"
  using assms
proof (induction as)
  case Nil
  then show ?case by simp
next
  case (Cons a as)
  then obtain rs where rs: "review_all s as = Inr rs" "map reviewed rs = as"
    "map (\<lambda>e. Some (found e)) rs
        = map (\<lambda>a. find (\<lambda>q. Question.question q = AnswerRecord.question a) (questions s)) as"
    by auto
  from Cons.prems have "AnswerRecord.question a \<in> set (map Question.question (questions s))"
    by simp
  from find_text_Some [OF this] obtain q
    where q: "find (\<lambda>q. Question.question q = AnswerRecord.question a) (questions s) = Some q" ..
  show ?case by (simp add: rs q review_entry_def)
qed

lemma find_distinct_nth:
  assumes "distinct (map f xs)" "i < length xs"
  shows "find (\<lambda>x. f x = f (xs ! i)) xs = Some (xs ! i)"
proof -
  have "\<And>j. j < i \<Longrightarrow> f (xs ! j) \<noteq> f (xs ! i)"
    using assms by (metis (no_types, lifting) distinct_conv_nth length_map less_trans nat_neq_iff nth_map)
  then show ?thesis using assms(2) by (auto simp add: find_Some_iff)
qed

lemma filter_by_positions:
  "filter P xs = map (nth xs) (filter (\<lambda>i. P (xs ! i)) [0..<length xs])"
proof -
  have "filter P xs = filter P (map (nth xs) [0..<length xs])" by (simp add: map_nth)
  also have "\<dots> = map (nth xs) (filter (P \<circ> nth xs) [0..<length xs])" by (simp only: filter_map)
  finally show ?thesis by (simp add: comp_def)
qed

lemma showResults_reachable:
  assumes "reachable s"
  shows "\<exists>rs. showResults s =
      Inr \<lparr>category = categoryName s, final_score = score s, total = totalQuestions s,
           percent = percentage s, message = performance (percentage s), review = rs\<rparr>"
proof -
  let ?bad = "filter (\<lambda>a. \<not> isCorrect a) (answers s)"
  have "set (map AnswerRecord.question ?bad) \<subseteq> set (map AnswerRecord.question (answers s))"
    by auto
  also have "\<dots> \<subseteq> set (map Question.question (questions s))"
    unfolding reachable_log [OF assms] by (auto dest: in_set_takeD)
  finally obtain rs where "review_all s ?bad = Inr rs"
    using review_all_Inr [of ?bad s] by blast
  then show ?thesis by (simp add: showResults_def Let_def)
qed

text \<open>
  C8, as the code has it. For every reachable session \<^verbatim>\<open>showResults\<close> completes, and
  its review lists the wrong answers of the log in order, each with the question that
  \<^verbatim>\<open>find\<close> returns for the text of the answer: the first question of the session with
  that text. When the texts of the questions are distinct, that is the originating
  question of each wrong answer.
\<close>

theorem review_pairs_by_text:
  assumes "reachable s"
  shows "\<exists>r. showResults s = Inr r
    \<and> map reviewed (review r) = filter (\<lambda>a. \<not> isCorrect a) (answers s)
    \<and> map (\<lambda>e. Some (found e)) (review r)
        = map (\<lambda>a. find (\<lambda>q. Question.question q = AnswerRecord.question a) (questions s))
            (filter (\<lambda>a. \<not> isCorrect a) (answers s))
    \<and> (distinct (map Question.question (questions s)) \<longrightarrow>
         map found (review r) = map (nth (questions s)) (incorrect_positions s))"
proof -
  let ?bad = "filter (\<lambda>a. \<not> isCorrect a) (answers s)"
  let ?find = "\<lambda>a. find (\<lambda>q. Question.question q = AnswerRecord.question a) (questions s)"
  have log: "map AnswerRecord.question (answers s)
         = map Question.question (take (currentIndex s) (questions s))"
    using assms by (rule reachable_log)
  have inv: "currentIndex s \<le> length (questions s)" "length (answers s) = currentIndex s"
    using reachable_bounds [OF assms] by simp_all
  have "set (map AnswerRecord.question ?bad) \<subseteq> set (map AnswerRecord.question (answers s))"
    by auto
  also have "\<dots> \<subseteq> set (map Question.question (questions s))"
    unfolding log by (auto dest: in_set_takeD)
  finally obtain rs where rs: "review_all s ?bad = Inr rs" "map reviewed rs = ?bad"
    "map (\<lambda>e. Some (found e)) rs = map ?find ?bad"
    using review_all_Inr [of ?bad s] by blast
  have res: "showResults s = Inr \<lparr>category = categoryName s, final_score = score s,
      total = totalQuestions s, percent = percentage s,
      message = performance (percentage s), review = rs\<rparr>"
    by (simp add: showResults_def Let_def rs(1))
  have "map found rs = map (nth (questions s)) (incorrect_positions s)"
    if d: "distinct (map Question.question (questions s))"
  proof -
    have nth_text: "AnswerRecord.question (answers s ! i) = Question.question (questions s ! i)"
      if "i < length (answers s)" for i
    proof -
      have "AnswerRecord.question (answers s ! i) = map AnswerRecord.question (answers s) ! i"
        using that by simp
      also have "\<dots> = Question.question (questions s ! i)"
        unfolding log using that inv by simp
      finally show ?thesis .
    qed
    have "map ?find ?bad = map (\<lambda>i. ?find (answers s ! i)) (incorrect_positions s)"
      by (subst filter_by_positions) (simp add: incorrect_positions_def comp_def)
    also have "\<dots> = map (\<lambda>i. Some (questions s ! i)) (incorrect_positions s)"
    proof (rule map_cong [OF refl])
      fix i assume "i \<in> set (incorrect_positions s)"
      then have i: "i < length (answers s)" by (simp add: incorrect_positions_def)
      with inv have "i < length (questions s)" by simp
      from find_distinct_nth [OF d this] show "?find (answers s ! i) = Some (questions s ! i)"
        by (simp add: nth_text [OF i])
    qed
    finally have "map (\<lambda>e. Some (found e)) rs = map (\<lambda>i. Some (questions s ! i)) (incorrect_positions s)"
      using rs(3) by simp
    then have "map (the \<circ> (\<lambda>e. Some (found e))) rs
        = map (the \<circ> (\<lambda>i. Some (questions s ! i))) (incorrect_positions s)"
      by (simp only: map_map [symmetric])
    then show ?thesis by (simp add: comp_def)
  qed
  with res rs show ?thesis by simp
qed

section \<open>Percentages\<close>

lemma to_double_approx:
  assumes "0 \<le> x" "x \<le> 2 ^ 1000"
  shows "\<exists>y. to_double x = Num y \<and> 0 \<le> y \<and> \<bar>y - x\<bar> \<le> x / 2 ^ 53 + 1 / 2 ^ 1075"
proof (cases "x = 0")
  case True
  then show ?thesis by simp
next
  case False
  with assms have x: "0 < x" by simp
  have err: "\<bar>round_mag x - x\<bar> \<le> x / 2 ^ 53 + 1 / 2 ^ 1075"
    by (rule round_mag_error [OF x])
  have "round_mag x \<le> x + (x / 2 ^ 53 + 1 / 2 ^ 1075)" using err by linarith
  also have "\<dots> \<le> x + (x + 1)" using x by (intro add_left_mono add_mono) (simp_all add: field_simps)
  also have "\<dots> \<le> 2 ^ 1000 + (2 ^ 1000 + 1)" using assms(2) by (intro add_mono) simp_all
  also have "\<dots> < 2 ^ 1024" by simp
  finally have "\<not> 2 ^ 1024 \<le> round_mag \<bar>x\<bar>" using x by simp
  then have "to_double x = Num (round_mag x)" using x by (simp add: to_double_def)
  with err round_mag_nonneg [of x] x show ?thesis by simp
qed

lemma percent_approx:
  fixes a b :: nat
  assumes "0 < b" "a \<le> b"
  shows "\<exists>y. js_mul (js_div (Num (of_nat a)) (Num (of_nat b))) (Num 100) = Num y
    \<and> 0 \<le> y \<and> \<bar>y - 100 * of_nat a / of_nat b\<bar> \<le> 1 / 2 ^ 44"
proof -
  define x :: rat where "x = of_nat a / of_nat b"
  have x: "0 \<le> x" "x \<le> 1" using assms by (simp_all add: x_def)
  then have "x \<le> 2 ^ 1000" by (rule_tac order_trans [of _ 1]) simp_all
  from to_double_approx [OF x(1) this] obtain y1
    where y1: "to_double x = Num y1" "0 \<le> y1" "\<bar>y1 - x\<bar> \<le> x / 2 ^ 53 + 1 / 2 ^ 1075"
    by blast
  define E1 :: rat where "E1 = 1 / 2 ^ 53 + 1 / 2 ^ 1075"
  define E2 :: rat where "E2 = 200 / 2 ^ 53 + 1 / 2 ^ 1075"
  have small: "E2 + 100 * E1 \<le> 1 / 2 ^ 44" "E1 \<le> 1" by (simp_all add: E1_def E2_def)
  have "x / 2 ^ 53 \<le> 1 / 2 ^ 53" using x(2) by (simp add: divide_right_mono)
  with y1(3) have e1: "\<bar>y1 - x\<bar> \<le> E1" unfolding E1_def by linarith
  have d1: "y1 - x \<le> E1" "- (y1 - x) \<le> E1"
    using e1 by (rule abs_le_D1, rule abs_le_D2)
  with small(2) x(2) have y1le: "y1 \<le> 2" by linarith
  have "y1 * 100 \<le> 2 ^ 1000" using y1le by (rule_tac order_trans [of _ 200]) simp_all
  moreover have "0 \<le> y1 * 100" using y1(2) by simp
  ultimately obtain y2 where y2: "to_double (y1 * 100) = Num y2" "0 \<le> y2"
    "\<bar>y2 - y1 * 100\<bar> \<le> y1 * 100 / 2 ^ 53 + 1 / 2 ^ 1075"
    using to_double_approx [of "y1 * 100"] by blast
  have "y1 * 100 / 2 ^ 53 \<le> 200 / 2 ^ 53" using y1le by (simp add: divide_right_mono)
  with y2(3) have e2: "\<bar>y2 - y1 * 100\<bar> \<le> E2" unfolding E2_def by linarith
  have d2: "y2 - y1 * 100 \<le> E2" "- (y2 - y1 * 100) \<le> E2"
    using e2 by (rule abs_le_D1, rule abs_le_D2)
  have "y2 - 100 * x \<le> 1 / 2 ^ 44" "- (y2 - 100 * x) \<le> 1 / 2 ^ 44"
    using d1 d2 small(1) by linarith+
  then have "\<bar>y2 - 100 * x\<bar> \<le> 1 / 2 ^ 44" by (rule abs_leI)
  moreover have "js_mul (js_div (Num (of_nat a)) (Num (of_nat b))) (Num 100) = Num y2"
    using assms(1) y1(1) y2(1) by (simp add: x_def)
  ultimately show ?thesis using y2(2) by (auto simp add: x_def)
qed


lemma round_half_even_unique:
  assumes "\<bar>m - of_int n\<bar> < 1 / 2"
  shows "round_half_even m = n"
proof -
  have f: "of_int \<lfloor>m\<rfloor> \<le> m" "m < of_int \<lfloor>m\<rfloor> + 1"
    using floor_correct [of m] by simp_all
  from assms have "m - of_int n < 1 / 2 \<and> - (m - of_int n) < 1 / 2" by (simp only: abs_less_iff)
  then have n: "m - of_int n < 1 / 2" "of_int n - m < 1 / 2" by linarith+
  have "(of_int n :: rat) < of_int \<lfloor>m\<rfloor> + 2" using f n by linarith
  then have "(of_int n :: rat) < of_int (\<lfloor>m\<rfloor> + 2)" by simp
  then have "n < \<lfloor>m\<rfloor> + 2" by (simp only: of_int_less_iff)
  then have 1: "n \<le> \<lfloor>m\<rfloor> + 1" by linarith
  have "(of_int \<lfloor>m\<rfloor> :: rat) - 1 < of_int n" using f n by linarith
  then have "(of_int (\<lfloor>m\<rfloor> - 1) :: rat) < of_int n" by simp
  then have "\<lfloor>m\<rfloor> - 1 < n" by (simp only: of_int_less_iff)
  then have 2: "\<lfloor>m\<rfloor> \<le> n" by linarith
  from 1 2 consider "n = \<lfloor>m\<rfloor>" | "n = \<lfloor>m\<rfloor> + 1" by linarith
  then show ?thesis
  proof cases
    case 1
    with n show ?thesis by (simp add: round_half_even_def Let_def)
  next
    case 2
    with n show ?thesis by (simp add: round_half_even_def Let_def)
  qed
qed

lemma to_double_eval:
  assumes "0 < a" "2 powi e \<le> a" "a < 2 powi (e + 1)" "- 1022 \<le> e" "e \<le> 1022"
    and "\<bar>a / 2 powi (e - 52) - of_int n\<bar> < 1 / 2"
  shows "to_double a = Num (of_int n * 2 powi (e - 52))"
proof -
  have il: "ilog2 a = e" using assms(1-3) by (rule ilog2_unique)
  have u: "ulp a = 2 powi (e - 52)" using assms(4) by (simp add: ulp_def il max_def)
  have r: "round_mag a = of_int n * 2 powi (e - 52)"
    by (simp add: round_mag_def u round_half_even_unique [OF assms(6)])
  have "a / 2 powi (e - 52) < 2 powi (e + 1) / 2 powi (e - 52)"
    using assms(3) by (simp add: divide_strict_right_mono)
  also have "\<dots> = 2 powi 53" by (simp flip: power_int_diff)
  finally have "a / 2 powi (e - 52) < 2 ^ 53" by simp
  moreover from assms(6) have "a / 2 powi (e - 52) - of_int n < 1 / 2
      \<and> - (a / 2 powi (e - 52) - of_int n) < 1 / 2" by (simp only: abs_less_iff)
  ultimately have "(of_int n :: rat) < 2 ^ 53 + 1" by linarith
  then have "(of_int n :: rat) < of_int (2 ^ 53 + 1)" by simp
  then have "n < 2 ^ 53 + 1" by (simp only: of_int_less_iff)
  then have "n \<le> 2 ^ 53" by linarith
  then have "(of_int n :: rat) \<le> of_int (2 ^ 53)" by (simp only: of_int_le_iff)
  then have "(of_int n :: rat) * 2 powi (e - 52) \<le> 2 ^ 53 * 2 powi (e - 52)"
    by (intro mult_right_mono) simp_all
  also have "\<dots> = 2 powi (e + 1)"
    using power_int_add [of "2::rat" 53 "e - 52"] by (simp add: add.commute)
  also have "\<dots> \<le> 2 powi 1023" using assms(5) by (intro power_int_increasing) simp_all
  also have "\<dots> < 2 ^ 1024" by simp
  finally have "\<not> 2 ^ 1024 \<le> round_mag \<bar>a\<bar>" using assms(1) by (simp add: r)
  then show ?thesis using assms(1) by (simp add: to_double_def r)
qed

lemma tie_40: "js_mul (to_double (79 / 200)) (Num 100) = Num (79 / 2)"
proof -
  have "to_double (79 / 200) = Num (7115687411245384 / 2 ^ 54)"
    using to_double_eval [of "79 / 200" "- 2" 7115687411245384] by simp
  moreover have "to_double (7115687411245384 / 2 ^ 54 * 100) = Num (79 / 2)"
    using to_double_eval [of "7115687411245384 / 2 ^ 54 * 100" 5 5559130790035456] by simp
  ultimately show ?thesis by simp
qed

lemma tie_60: "js_mul (to_double (119 / 200)) (Num 100) = Num (119 / 2)"
proof -
  have "to_double (119 / 200) = Num (5359283556570890 / 2 ^ 53)"
    using to_double_eval [of "119 / 200" "- 1" 5359283556570890] by simp
  moreover have "to_double (5359283556570890 / 2 ^ 53 * 100) = Num (119 / 2)"
    using to_double_eval [of "5359283556570890 / 2 ^ 53 * 100" 5 8373880557142016] by simp
  ultimately show ?thesis by simp
qed

lemma tie_80: "js_mul (to_double (159 / 200)) (Num 100) = Num (159 / 2)"
proof -
  have "to_double (159 / 200) = Num (7160723407519089 / 2 ^ 53)"
    using to_double_eval [of "159 / 200" "- 1" 7160723407519089] by simp
  moreover have "to_double (7160723407519089 / 2 ^ 53 * 100) = Num (159 / 2)"
    using to_double_eval [of "7160723407519089 / 2 ^ 53 * 100" 6 5594315162124288] by simp
  ultimately show ?thesis by simp
qed

lemma tie_100: "js_mul (to_double (199 / 200)) (Num 100) = Num (199 / 2)"
proof -
  have "to_double (199 / 200) = Num (8962163258467287 / 2 ^ 53)"
    using to_double_eval [of "199 / 200" "- 1" 8962163258467287] by simp
  moreover have "to_double (8962163258467287 / 2 ^ 53 * 100) = Num (199 / 2)"
    using to_double_eval [of "8962163258467287 / 2 ^ 53 * 100" 6 7001690045677568] by simp
  ultimately show ?thesis by simp
qed

lemma tie_57: "js_mul (to_double (23 / 40)) (Num 100) = Num (8092405580431359 / 2 ^ 47)"
proof -
  have "to_double (23 / 40) = Num (5179139571476070 / 2 ^ 53)"
    using to_double_eval [of "23 / 40" "- 1" 5179139571476070] by simp
  moreover have "to_double (5179139571476070 / 2 ^ 53 * 100) = Num (8092405580431359 / 2 ^ 47)"
    using to_double_eval [of "5179139571476070 / 2 ^ 53 * 100" 5 8092405580431359] by simp
  ultimately show ?thesis by simp
qed

lemma boundary_agree:
  fixes a b :: nat and m :: int and y :: rat
  assumes "0 < b" "b < 2 ^ 32" "\<bar>y - 100 * of_nat a / of_nat b\<bar> \<le> 1 / 2 ^ 44"
    and tie: "200 * int a = (2 * m - 1) * int b \<Longrightarrow> of_int m - 1 / 2 \<le> y"
  shows "m \<le> \<lfloor>y + 1 / 2\<rfloor> \<longleftrightarrow> m \<le> \<lfloor>100 * rat_of_nat a / rat_of_nat b + 1 / 2\<rfloor>"
proof -
  define X :: rat where "X = 100 * of_nat a / of_nat b"
  define D :: int where "D = 200 * int a - (2 * m - 1) * int b"
  have b: "(0::rat) < of_nat b" using assms(1) by simp
  have XD: "X + 1 / 2 - of_int m = of_int D / (2 * of_nat b)"
    using b by (simp add: X_def D_def field_simps)
  have bb: "(2::rat) * of_nat b \<le> 2 ^ 33"
  proof -
    have "2 * b \<le> 2 ^ 33" using assms(2) by simp
    then have "(of_nat (2 * b) :: rat) \<le> of_nat (2 ^ 33)" by (simp only: of_nat_le_iff)
    then show ?thesis by simp
  qed
  have inv: "(1::rat) / 2 ^ 33 \<le> 1 / (2 * of_nat b)"
    using bb b by (intro divide_left_mono) simp_all
  from assms(3) have yX: "y - X \<le> 1 / 2 ^ 44" "- (y - X) \<le> 1 / 2 ^ 44"
    unfolding X_def by (rule abs_le_D1, rule abs_le_D2)
  have gap: "(1::rat) / 2 ^ 44 < 1 / 2 ^ 33" by simp
  consider "D = 0" | "1 \<le> D" | "D \<le> - 1" by linarith
  then have "of_int m \<le> y + 1 / 2 \<longleftrightarrow> of_int m \<le> X + 1 / 2"
  proof cases
    case 1
    then have "200 * int a = (2 * m - 1) * int b" by (simp add: D_def)
    from tie [OF this] have "of_int m \<le> y + 1 / 2" by linarith
    moreover from 1 XD have "of_int m \<le> X + 1 / 2" by simp
    ultimately show ?thesis by simp
  next
    case 2
    then have "(1::rat) \<le> of_int D" by simp
    then have "(1::rat) / (2 * of_nat b) \<le> of_int D / (2 * of_nat b)"
      using b by (intro divide_right_mono) simp_all
    with inv XD have "(1::rat) / 2 ^ 33 \<le> X + 1 / 2 - of_int m" by linarith
    with yX gap show ?thesis by linarith
  next
    case 3
    then have "of_int D \<le> (- 1::rat)" by (metis of_int_le_iff of_int_minus of_int_1)
    then have "(of_int D :: rat) / (2 * of_nat b) \<le> - 1 / (2 * of_nat b)"
      using b by (intro divide_right_mono) simp_all
    then have "(of_int D :: rat) / (2 * of_nat b) \<le> - (1 / (2 * of_nat b))" by simp
    with inv XD have "X + 1 / 2 - of_int m \<le> - (1 / 2 ^ 33)" by linarith
    with yX gap show ?thesis by linarith
  qed
  then show ?thesis by (simp add: le_floor_iff X_def)
qed


lemma percent_tier:
  fixes a b :: nat
  assumes "0 < b" "a \<le> b" "b < 2 ^ 32"
  shows "\<exists>p. Math_round (js_mul (js_div (Num (of_nat a)) (Num (of_nat b))) (Num 100))
           = Num (of_nat p)
    \<and> p \<le> 100
    \<and> \<bar>rat_of_nat p - 100 * rat_of_nat a / rat_of_nat b\<bar> \<le> 1 / 2 + 1 / 2 ^ 44
    \<and> spec_percentage a b \<le> 100
    \<and> (\<forall>m\<in>{40, 60, 80, 100}. m \<le> p \<longleftrightarrow> m \<le> spec_percentage a b)
    \<and> (p = spec_percentage a b
       \<or> (Suc p = spec_percentage a b \<and> 200 * a + b = 2 * spec_percentage a b * b))"
proof -
  define X :: rat where "X = 100 * rat_of_nat a / rat_of_nat b"
  have b: "(0::rat) < of_nat b" using assms(1) by simp
  have "rat_of_nat a \<le> rat_of_nat b" using assms(2) by simp
  then have X: "0 \<le> X" "X \<le> 100" using b by (simp_all add: X_def field_simps)
  from percent_approx [OF assms(1,2)] obtain y
    where y: "js_mul (js_div (Num (of_nat a)) (Num (of_nat b))) (Num 100) = Num y"
      "0 \<le> y" "\<bar>y - X\<bar> \<le> 1 / 2 ^ 44"
    unfolding X_def by blast
  from y(3) have yX: "y - X \<le> 1 / 2 ^ 44" "- (y - X) \<le> 1 / 2 ^ 44"
    by (rule abs_le_D1, rule abs_le_D2)
  define q where "q = \<lfloor>y + 1 / 2\<rfloor>"
  define Q where "Q = \<lfloor>X + 1 / 2\<rfloor>"
  have q0: "0 \<le> q" using y(2) by (simp add: q_def)
  have Q0: "0 \<le> Q" using X(1) by (simp add: Q_def)
  have "y + 1 / 2 < 101" using yX(1) X(2) by (simp add: field_simps)
  then have "q < 101" unfolding q_def by (simp add: floor_less_iff)
  then have q100: "q \<le> 100" by simp
  have "X + 1 / 2 < 101" using X(2) by simp
  then have "Q < 101" unfolding Q_def by (simp add: floor_less_iff)
  then have Q100: "Q \<le> 100" by simp
  have fl: "of_int q \<le> y + 1 / 2" "y + 1 / 2 < of_int q + 1"
    using floor_correct [of "y + 1 / 2"] by (simp_all add: q_def)
  have close: "\<bar>of_int q - X\<bar> \<le> 1 / 2 + 1 / 2 ^ 44"
    using fl yX by (intro abs_leI) linarith+
  have ratio: "rat_of_nat a / rat_of_nat b = of_int k / 200" if "200 * int a = k * int b" for k
  proof -
    from that have "rat_of_int (200 * int a) = rat_of_int (k * int b)" by simp
    then have "200 * rat_of_nat a = of_int k * rat_of_nat b" by simp
    then show ?thesis using b by (simp add: field_simps)
  qed
  have y_eq: "to_double (rat_of_nat a / rat_of_nat b) = Num r \<Longrightarrow> js_mul (Num r) (Num 100) = Num y" for r
    using y(1) assms(1) by simp
  have t40: "of_int 40 - 1 / 2 \<le> y" if "200 * int a = (2 * 40 - 1) * int b"
  proof -
    from ratio [of 79] that have "rat_of_nat a / rat_of_nat b = 79 / 200" by simp
    with y(1) assms(1) tie_40 show ?thesis by simp
  qed
  have t60: "of_int 60 - 1 / 2 \<le> y" if "200 * int a = (2 * 60 - 1) * int b"
  proof -
    from ratio [of 119] that have "rat_of_nat a / rat_of_nat b = 119 / 200" by simp
    with y(1) assms(1) tie_60 show ?thesis by simp
  qed
  have t80: "of_int 80 - 1 / 2 \<le> y" if "200 * int a = (2 * 80 - 1) * int b"
  proof -
    from ratio [of 159] that have "rat_of_nat a / rat_of_nat b = 159 / 200" by simp
    with y(1) assms(1) tie_80 show ?thesis by simp
  qed
  have t100: "of_int 100 - 1 / 2 \<le> y" if "200 * int a = (2 * 100 - 1) * int b"
  proof -
    from ratio [of 199] that have "rat_of_nat a / rat_of_nat b = 199 / 200" by simp
    with y(1) assms(1) tie_100 show ?thesis by simp
  qed
  have yX': "\<bar>y - 100 * rat_of_nat a / rat_of_nat b\<bar> \<le> 1 / 2 ^ 44" using y(3) by (simp add: X_def)
  have agree: "40 \<le> q \<longleftrightarrow> 40 \<le> Q" "60 \<le> q \<longleftrightarrow> 60 \<le> Q"
    "80 \<le> q \<longleftrightarrow> 80 \<le> Q" "100 \<le> q \<longleftrightarrow> 100 \<le> Q"
    unfolding q_def Q_def X_def
    using boundary_agree [OF assms(1,3) yX' t40] boundary_agree [OF assms(1,3) yX' t60]
      boundary_agree [OF assms(1,3) yX' t80] boundary_agree [OF assms(1,3) yX' t100]
    by simp_all
  have sp: "spec_percentage a b = nat Q" by (simp add: spec_percentage_def Q_def X_def)
  have QX: "\<lfloor>100 * rat_of_nat a / rat_of_nat b + 1 / 2\<rfloor> = Q" by (simp add: Q_def X_def)
  have qy: "\<lfloor>y + 1 / 2\<rfloor> = q" by (simp add: q_def)
  have tieQ: "Q = m" if "200 * int a = (2 * m - 1) * int b" for m
  proof -
    from ratio [OF that] have "X = 100 * (rat_of_int (2 * m - 1) / 200)" by (simp add: X_def)
    then have "X + 1 / 2 = rat_of_int m" by simp
    then show ?thesis by (simp only: Q_def floor_of_int)
  qed
  have ba: "m \<le> q \<longleftrightarrow> m \<le> Q"
    if "200 * int a = (2 * m - 1) * int b \<Longrightarrow> rat_of_int m - 1 / 2 \<le> y" for m
    using boundary_agree [OF assms(1,3) yX' that] by (simp only: QX qy)
  have "Q + 1 \<le> q \<longleftrightarrow> Q + 1 \<le> Q"
  proof (rule ba)
    assume "200 * int a = (2 * (Q + 1) - 1) * int b"
    from tieQ [OF this] show "rat_of_int (Q + 1) - 1 / 2 \<le> y" by simp
  qed
  then have up: "q \<le> Q" by linarith
  have "Q - 1 \<le> q \<longleftrightarrow> Q - 1 \<le> Q"
  proof (rule ba)
    assume "200 * int a = (2 * (Q - 1) - 1) * int b"
    from tieQ [OF this] show "rat_of_int (Q - 1) - 1 / 2 \<le> y" by simp
  qed
  then have low: "Q - 1 \<le> q" by linarith
  have same: "q = Q" if "200 * int a \<noteq> (2 * Q - 1) * int b"
  proof -
    have "Q \<le> q \<longleftrightarrow> Q \<le> Q" by (rule ba) (use that in simp)
    with up show ?thesis by linarith
  qed
  have exact: "nat q = spec_percentage a b
       \<or> (Suc (nat q) = spec_percentage a b \<and> 200 * a + b = 2 * spec_percentage a b * b)"
  proof (cases "200 * int a = (2 * Q - 1) * int b")
    case False
    from same [OF this] show ?thesis by (simp add: sp)
  next
    case True
    define P where "P = nat Q"
    have QP: "Q = int P" using Q0 by (simp add: P_def)
    from True have "int (200 * a + b) = int (2 * P * b)" by (simp add: QP algebra_simps)
    then have t: "200 * a + b = 2 * P * b" by (simp only: of_nat_eq_iff)
    from up low consider "q = Q" | "q + 1 = Q" by linarith
    then show ?thesis
    proof cases
      case 1
      then show ?thesis by (simp add: sp)
    next
      case 2
      then have "Suc (nat q) = P" using q0 by (simp add: P_def)
      with t show ?thesis by (simp add: sp P_def)
    qed
  qed
  have "Math_round (js_mul (js_div (Num (of_nat a)) (Num (of_nat b))) (Num 100))
        = Num (of_int q)"
    by (simp only: y(1) Math_round.simps q_def)
  moreover have "rat_of_int q = of_nat (nat q)" using q0 by simp
  ultimately have "Math_round (js_mul (js_div (Num (of_nat a)) (Num (of_nat b))) (Num 100))
        = Num (of_nat (nat q))"
    by (simp only:)
  moreover have "nat q \<le> 100" using q100 by simp
  moreover have "\<bar>rat_of_nat (nat q) - 100 * rat_of_nat a / rat_of_nat b\<bar> \<le> 1 / 2 + 1 / 2 ^ 44"
    using close q0 by (simp add: X_def)
  moreover have "spec_percentage a b \<le> 100" using Q100 by (simp add: sp)
  moreover have "\<forall>m\<in>{40, 60, 80, 100}. m \<le> nat q \<longleftrightarrow> m \<le> spec_percentage a b"
    using agree q0 Q0 by (simp add: sp) linarith
  ultimately show ?thesis using exact by blast
qed

lemma performance_of_nat:
  "performance (Num (of_nat p)) =
     (if p = 100 then ''Perfect score! Amazing!''
      else if 80 \<le> p then ''Great job! Well done!''
      else if 60 \<le> p then ''Good effort! Keep learning!''
      else if 40 \<le> p then ''Not bad! Room for improvement.''
      else ''Keep practicing! You'' @ [CHR 0x27] @ ''ll get better!'')"
  by (simp add: performance_def js_strict_eq_def js_ge_def not_less)

lemma tier_table_agree:
  assumes "p \<le> 100" "P \<le> 100" "\<forall>m\<in>{40, 60, 80, 100}. m \<le> p \<longleftrightarrow> m \<le> (P::nat)"
  shows "tier_table p = tier_table P"
  using assms by (simp add: tier_table_def) linarith

lemma percentage_tie_below:
  assumes "score s = 23" "totalQuestions s = 40"
  shows "percentage s = Num 57" "spec_percentage (score s) (totalQuestions s) = 58"
proof -
  have "rat_of_nat 23 / rat_of_nat 40 = 23 / 40" by simp
  then have "js_mul (js_div (Num (of_nat 23)) (Num (of_nat 40))) (Num 100)
      = Num (8092405580431359 / 2 ^ 47)"
    using tie_57 by simp
  then show "percentage s = Num 57"
    unfolding percentage_def assms by (simp only: Math_round.simps) (simp add: floor_eq_iff)
  show "spec_percentage (score s) (totalQuestions s) = 58"
    by (simp add: assms spec_percentage_def)
qed

lemma percent_round:
  fixes a b :: nat
  assumes "0 < b" "a \<le> b"
  shows "\<exists>p. Math_round (js_mul (js_div (Num (of_nat a)) (Num (of_nat b))) (Num 100))
           = Num (of_nat p)
    \<and> p \<le> 100
    \<and> \<bar>rat_of_nat p - 100 * rat_of_nat a / rat_of_nat b\<bar> \<le> 1 / 2 + 1 / 2 ^ 44"
proof -
  define X :: rat where "X = 100 * rat_of_nat a / rat_of_nat b"
  have b: "(0::rat) < of_nat b" using assms(1) by simp
  have "rat_of_nat a \<le> rat_of_nat b" using assms(2) by simp
  then have X: "0 \<le> X" "X \<le> 100" using b by (simp_all add: X_def field_simps)
  from percent_approx [OF assms(1,2)] obtain y
    where y: "js_mul (js_div (Num (of_nat a)) (Num (of_nat b))) (Num 100) = Num y"
      "0 \<le> y" "\<bar>y - X\<bar> \<le> 1 / 2 ^ 44"
    unfolding X_def by blast
  from y(3) have yX: "y - X \<le> 1 / 2 ^ 44" "- (y - X) \<le> 1 / 2 ^ 44"
    by (rule abs_le_D1, rule abs_le_D2)
  define q where "q = \<lfloor>y + 1 / 2\<rfloor>"
  have q0: "0 \<le> q" using y(2) by (simp add: q_def)
  have "y + 1 / 2 < 101" using yX(1) X(2) by (simp add: field_simps)
  then have "q < 101" unfolding q_def by (simp add: floor_less_iff)
  then have q100: "q \<le> 100" by simp
  have fl: "of_int q \<le> y + 1 / 2" "y + 1 / 2 < of_int q + 1"
    using floor_correct [of "y + 1 / 2"] by (simp_all add: q_def)
  have close: "\<bar>of_int q - X\<bar> \<le> 1 / 2 + 1 / 2 ^ 44"
    using fl yX by (intro abs_leI) linarith+
  have "Math_round (js_mul (js_div (Num (of_nat a)) (Num (of_nat b))) (Num 100))
        = Num (of_int q)"
    by (simp only: y(1) Math_round.simps q_def)
  moreover have "rat_of_int q = of_nat (nat q)" using q0 by simp
  ultimately have "Math_round (js_mul (js_div (Num (of_nat a)) (Num (of_nat b))) (Num 100))
        = Num (of_nat (nat q))"
    by (simp only:)
  moreover have "nat q \<le> 100" using q100 by simp
  moreover have "\<bar>rat_of_nat (nat q) - 100 * rat_of_nat a / rat_of_nat b\<bar> \<le> 1 / 2 + 1 / 2 ^ 44"
    using close q0 by (simp add: X_def)
  ultimately show ?thesis by blast
qed

lemma nat_near:
  fixes p k :: nat
  assumes "\<bar>rat_of_nat p - rat_of_nat k\<bar> \<le> 1 / 2 + 1 / 2 ^ 44"
  shows "p = k"
proof -
  note assms
  also have "(1::rat) / 2 + 1 / 2 ^ 44 < 1" by simp
  finally have "\<bar>rat_of_int (int p - int k)\<bar> < rat_of_int 1" by simp
  then have "\<bar>int p - int k\<bar> < 1"
    by (simp only: of_int_abs [symmetric] of_int_less_iff)
  then show ?thesis by linarith
qed

lemma Quiz_new_empty: "Quiz_new rnd [] ''JavaScript'' = Some empty_quiz"
  by (simp add: Quiz_new_def shuffle_def empty_quiz_def)

lemma reachable_empty_quiz: "reachable empty_quiz"
  by (rule reachable.new [OF Quiz_new_empty])

text \<open>
  C4, as the code has it. In a reachable session without questions the score is 0 and the
  answer log is empty; \<^verbatim>\<open>showResults\<close> divides 0 by 0 with no guard, so the percentage
  is \<^verbatim>\<open>NaN\<close>, not 0. Every comparison of the \<^verbatim>\<open>if\<close> chain is then false, and the message
  is the last one, needs practice.
\<close>

theorem zero_questions_results:
  assumes "reachable s" "questions s = []"
  shows "showResults s =
     Inr \<lparr>category = categoryName s, final_score = 0, total = 0, percent = NaN,
          message = message_of Needs_practice, review = []\<rparr>"
proof -
  from reachable_bounds [OF assms(1)] assms(2)
  have z: "score s = 0" "answers s = []" by simp_all
  have "percentage s = NaN" by (simp add: percentage_def totalQuestions_def z assms(2))
  then show ?thesis
    by (simp add: showResults_def Let_def z assms(2) totalQuestions_def performance_def
        js_strict_eq_def js_ge_def)
qed

theorem zero_questions_results_witness:
  "reachable empty_quiz \<and> questions empty_quiz = []
   \<and> showResults empty_quiz =
     Inr \<lparr>category = ''JavaScript'', final_score = 0, total = 0, percent = NaN,
          message = ''Keep practicing! You'' @ [CHR 0x27] @ ''ll get better!'', review = []\<rparr>"
proof -
  have q: "questions empty_quiz = []" by (simp add: empty_quiz_def)
  from zero_questions_results [OF reachable_empty_quiz q] reachable_empty_quiz q
  show ?thesis by (simp add: empty_quiz_def)
qed

text \<open>
  C4, as the specification states it, fails: the session that the constructor makes from
  no questions reports the percentage \<^verbatim>\<open>NaN\<close> where the claim says 0.
\<close>

theorem zero_questions_percentage_counterexample:
  "Quiz_new (sconst 0) [] ''JavaScript'' = Some empty_quiz
   \<and> totalQuestions empty_quiz = 0 \<and> score empty_quiz = 0
   \<and> percentage empty_quiz = NaN \<and> percentage empty_quiz \<noteq> Num 0"
  by (simp add: Quiz_new_def shuffle_def empty_quiz_def percentage_def totalQuestions_def)

text \<open>
  C5, as the code has it. \<^verbatim>\<open>progress\<close> is \<^verbatim>\<open>Math.round((position / total) * 100)\<close>, a
  percentage and not the fraction. In a reachable session with questions it is a whole
  number between 0 and 100, within a half (and a rounding error below \<open>2\<^sup>-\<^sup>4\<^sup>4\<close>) of
  \<open>100 * position / total\<close>: 0 before the first question and 100 when the session is
  complete. The division is not guarded: without questions the result is \<^verbatim>\<open>NaN\<close>.
\<close>

theorem progress_is_percentage:
  assumes "reachable s"
  shows "(questions s = [] \<longrightarrow> progress s = NaN)
    \<and> (questions s \<noteq> [] \<longrightarrow>
         (\<exists>p. progress s = Num (of_nat p) \<and> p \<le> 100
            \<and> \<bar>rat_of_nat p - 100 * rat_of_nat (currentIndex s) / rat_of_nat (length (questions s))\<bar>
                \<le> 1 / 2 + 1 / 2 ^ 44
            \<and> (currentIndex s = 0 \<longrightarrow> p = 0)
            \<and> (isComplete s \<longrightarrow> p = 100)))"
proof (intro conjI impI)
  assume e: "questions s = []"
  with reachable_bounds [OF assms] have "currentIndex s = 0" by simp
  with e show "progress s = NaN" by (simp add: progress_def)
next
  assume "questions s \<noteq> []"
  then have pos: "0 < length (questions s)" by simp
  have le: "currentIndex s \<le> length (questions s)" using assms by (rule reachable_bounds)
  from percent_round [OF pos le] obtain p
    where p: "progress s = Num (of_nat p)" "p \<le> 100"
      "\<bar>rat_of_nat p - 100 * rat_of_nat (currentIndex s) / rat_of_nat (length (questions s))\<bar>
                \<le> 1 / 2 + 1 / 2 ^ 44"
    unfolding progress_def by blast
  have z: "p = 0" if "currentIndex s = 0"
  proof -
    from p(3) that have "\<bar>rat_of_nat p - rat_of_nat 0\<bar> \<le> 1 / 2 + 1 / 2 ^ 44" by simp
    then show ?thesis by (rule nat_near)
  qed
  have c: "p = 100" if "isComplete s"
  proof -
    from that le have "currentIndex s = length (questions s)" by (simp add: isComplete_def)
    with p(3) pos have "\<bar>rat_of_nat p - rat_of_nat 100\<bar> \<le> 1 / 2 + 1 / 2 ^ 44" by simp
    then show ?thesis by (rule nat_near)
  qed
  show "\<exists>p. progress s = Num (of_nat p) \<and> p \<le> 100
            \<and> \<bar>rat_of_nat p - 100 * rat_of_nat (currentIndex s) / rat_of_nat (length (questions s))\<bar>
                \<le> 1 / 2 + 1 / 2 ^ 44
            \<and> (currentIndex s = 0 \<longrightarrow> p = 0)
            \<and> (isComplete s \<longrightarrow> p = 100)"
    by (intro exI [of _ p] conjI impI p z c)
qed

section \<open>Sample sessions\<close>

lemma select_accepted:
  assumes "accepted opts l"
  shows "select (l ## rest) qtext opts =
     Some ((choice_index l, js_nth opts (choice_index l)), rest,
           ShowQuestion qtext # map (\<lambda>(i, option). ShowOption (i + 1) option) (enumerate 0 opts)
           @ [YourChoice])"
  using assms by (simp add: select_def select_loop_unfold [of "l ## rest"])

lemma askQuestion_accepted:
  assumes "currentQuestion s = Some q" "accepted (options q) l" "choice_index l = Num (of_nat k)"
  shows "\<exists>out. askQuestion s (l ## rest) =
     Some (k = answer q,
           s\<lparr>answers := answers s @
                [\<lparr>question = Question.question q, userAnswer = Num (of_nat k),
                  correctAnswer = answer q, isCorrect = (k = answer q)\<rparr>],
             score := (if k = answer q then score s + 1 else score s),
             currentIndex := currentIndex s + 1\<rparr>,
           rest, out)"
  using assms
  by (simp add: askQuestion_def select_accepted submitAnswer_of_nat del: js_nth_of_nat)

lemma choice_1: "choice_index (line ''1'') = Num (of_nat 0)"
  by (simp add: parse_simps)

lemma accepted_1: "opts \<noteq> [] \<Longrightarrow> accepted opts (line ''1'')"
  by (simp add: parse_simps)

lemma Quiz_new_twin:
  "Quiz_new (sconst (1 / 2)) [twin_a, twin_b] ''JavaScript'' = Some twin_start"
  by (simp add: Quiz_new_def shuffle_def twin_start_def swap_def Let_def)

lemma reachable_twin_halfway: "reachable twin_halfway"
proof -
  have 0: "reachable twin_start" by (rule reachable.new [OF Quiz_new_twin])
  have "currentQuestion twin_start = Some twin_a"
    by (simp add: currentQuestion_def twin_start_def)
  from askQuestion_accepted [OF this accepted_1 choice_1, of "sconst (line ''1'')"]
  obtain out where "askQuestion twin_start (line ''1'' ## sconst (line ''1''))
      = Some (True, twin_halfway, sconst (line ''1''), out)"
    by (auto simp add: twin_start_def twin_halfway_def twin_a_def)
  from reachable.ask [OF 0 this] show ?thesis .
qed

lemma reachable_twin_quiz: "reachable twin_quiz"
proof -
  have "currentQuestion twin_halfway = Some twin_b"
    by (simp add: currentQuestion_def twin_halfway_def)
  from askQuestion_accepted [OF this accepted_1 choice_1, of "sconst (line ''1'')"]
  obtain out where "askQuestion twin_halfway (line ''1'' ## sconst (line ''1''))
      = Some (False, twin_quiz, sconst (line ''1''), out)"
    by (auto simp add: twin_quiz_def twin_halfway_def twin_b_def)
  from reachable.ask [OF reachable_twin_halfway this] show ?thesis .
qed

lemma reachable_wrong_quiz: "reachable wrong_quiz"
proof -
  have "currentQuestion sample_quiz = Some sample_question"
    by (simp add: currentQuestion_def sample_quiz_def)
  from askQuestion_accepted [OF this accepted_1 choice_1, of "sconst (line ''1'')"]
  obtain out where "askQuestion sample_quiz (line ''1'' ## sconst (line ''1''))
      = Some (False, wrong_quiz, sconst (line ''1''), out)"
    by (auto simp add: sample_quiz_def wrong_quiz_def sample_question_def)
  from reachable.ask [OF reachable.new [OF Quiz_new_sample] this] show ?thesis .
qed

lemma to_double_half [simp]: "to_double (1 / 2) = Num (1 / 2)"
  using to_double_eval [of "1 / 2" "- 1" "2 ^ 52"] by simp

lemma progress_halfway: "progress twin_halfway = Num 50"
  by (simp add: progress_def twin_halfway_def floor_eq_iff)

text \<open>C5 at the empty session, where the result is \<^verbatim>\<open>NaN\<close>, and at the sample session
  after its only question, where it is 100.\<close>

theorem progress_is_percentage_witness:
  "reachable empty_quiz \<and> questions empty_quiz = [] \<and> progress empty_quiz = NaN
   \<and> reachable answered_quiz \<and> length (questions answered_quiz) = 1
   \<and> isComplete answered_quiz \<and> progress answered_quiz = Num 100"
proof -
  have e: "questions empty_quiz = []" by (simp add: empty_quiz_def)
  have a: "questions answered_quiz \<noteq> []" "length (questions answered_quiz) = 1"
    "isComplete answered_quiz"
    by (simp_all add: answered_quiz_def sample_quiz_def isComplete_def)
  from progress_is_percentage [OF reachable_empty_quiz] e
  have 1: "progress empty_quiz = NaN" by simp
  from progress_is_percentage [OF reachable_answered_quiz] a
  have 2: "progress answered_quiz = Num 100" by auto
  from 1 2 e a reachable_empty_quiz reachable_answered_quiz show ?thesis by simp
qed

text \<open>
  C5, as the specification states it, fails twice. Halfway through two questions the
  result is 50, not the fraction one half; and in the session without questions it is
  \<^verbatim>\<open>NaN\<close>, not 0: nothing guards the division.
\<close>

theorem progress_fraction_counterexample:
  "reachable twin_halfway \<and> currentIndex twin_halfway = 1 \<and> length (questions twin_halfway) = 2
   \<and> progress twin_halfway = Num 50
   \<and> reachable empty_quiz \<and> length (questions empty_quiz) = 0 \<and> progress empty_quiz = NaN"
  by (simp add: progress_halfway reachable_twin_halfway reachable_empty_quiz)
    (simp add: twin_halfway_def empty_quiz_def progress_def)

section \<open>The review, at sample sessions\<close>

text \<open>
  C8, as the specification states it, fails when two questions share their text. In the
  session over the twin questions the wrong answer is the second one, given to the second
  question (options let and final); the review pairs it with the first question, whose
  options are const and var.
\<close>

theorem review_same_text_counterexample:
  "reachable twin_quiz
   \<and> showResults twin_quiz =
       Inr \<lparr>category = ''JavaScript'', final_score = 1, total = 2, percent = Num 50,
            message = ''Not bad! Room for improvement.'',
            review =
              [\<lparr>reviewed = \<lparr>question = ''Which keyword declares a constant?'',
                            userAnswer = Num 0, correctAnswer = 1, isCorrect = False\<rparr>,
                found = twin_a, yourAnswer = Some ''const'', correct = Some ''var''\<rparr>]\<rparr>
   \<and> incorrect_positions twin_quiz = [1]
   \<and> questions twin_quiz ! 1 = twin_b
   \<and> options twin_a = [''const'', ''var''] \<and> options twin_b = [''let'', ''final'']"
proof -
  have p: "percentage twin_quiz = Num 50"
    by (simp add: percentage_def twin_quiz_def totalQuestions_def floor_eq_iff)
  have r: "review_all twin_quiz (filter (\<lambda>a. \<not> isCorrect a) (answers twin_quiz)) =
      Inr [\<lparr>reviewed = \<lparr>question = ''Which keyword declares a constant?'',
                            userAnswer = Num 0, correctAnswer = 1, isCorrect = False\<rparr>,
            found = twin_a, yourAnswer = Some ''const'', correct = Some ''var''\<rparr>]"
    by (simp add: twin_quiz_def review_entry_def js_nth_def twin_a_def twin_b_def)
  have m: "performance (Num 50) = ''Not bad! Room for improvement.''"
    by (simp add: performance_def js_strict_eq_def js_ge_def)
  have f: "categoryName twin_quiz = ''JavaScript''" "score twin_quiz = 1"
    "totalQuestions twin_quiz = 2"
    by (simp_all add: twin_quiz_def totalQuestions_def)
  have "showResults twin_quiz =
       Inr \<lparr>category = ''JavaScript'', final_score = 1, total = 2, percent = Num 50,
            message = ''Not bad! Room for improvement.'',
            review =
              [\<lparr>reviewed = \<lparr>question = ''Which keyword declares a constant?'',
                            userAnswer = Num 0, correctAnswer = 1, isCorrect = False\<rparr>,
                found = twin_a, yourAnswer = Some ''const'', correct = Some ''var''\<rparr>]\<rparr>"
    by (simp add: showResults_def Let_def p r m f)
  moreover have "incorrect_positions twin_quiz = [1]"
    by (simp add: incorrect_positions_def twin_quiz_def upt_rec)
  moreover have "questions twin_quiz ! 1 = twin_b" by (simp add: twin_quiz_def)
  ultimately show ?thesis
    using reachable_twin_quiz by (simp add: twin_a_def twin_b_def)
qed

text \<open>C8 at the sample session after a wrong answer: one entry, with the sample question.\<close>

theorem review_pairs_by_text_witness:
  "reachable wrong_quiz \<and> distinct (map Question.question (questions wrong_quiz))
   \<and> (\<exists>r. showResults wrong_quiz = Inr r
        \<and> map reviewed (review r) =
            [\<lparr>question = ''What does typeof null return?'', userAnswer = Num 0,
              correctAnswer = 1, isCorrect = False\<rparr>]
        \<and> map found (review r) = [sample_question])"
proof -
  have d: "distinct (map Question.question (questions wrong_quiz))"
    by (simp add: wrong_quiz_def sample_quiz_def)
  have i: "incorrect_positions wrong_quiz = [0]"
    by (simp add: incorrect_positions_def wrong_quiz_def)
  from review_pairs_by_text [OF reachable_wrong_quiz] d i reachable_wrong_quiz
  show ?thesis by (auto simp add: wrong_quiz_def sample_quiz_def)
qed

section \<open>Choosing an option\<close>

lemma round_mag_lower:
  assumes "1 \<le> a"
  shows "a / 2 \<le> round_mag a"
proof -
  have a: "0 < a" using assms by simp
  from round_mag_error [OF a] have "- (round_mag a - a) \<le> a / 2 ^ 53 + 1 / 2 ^ 1075"
    by (rule abs_le_D2)
  moreover have "a / 2 ^ 53 \<le> a / 4" using a by (intro divide_left_mono) simp_all
  moreover have "(1::rat) / 2 ^ 1075 \<le> 1 / 4" by simp
  moreover have "1 / 4 \<le> a / 4" using assms by simp
  ultimately show ?thesis by linarith
qed

lemma to_double_large:
  assumes "1 \<le> x"
  shows "to_double x = PosInf \<or> (\<exists>y. to_double x = Num y \<and> x / 2 \<le> y)"
  using assms round_mag_lower [of x] by (simp add: to_double_def)

lemma to_double_small:
  assumes "x \<le> - 1"
  shows "to_double x = NegInf \<or> (\<exists>y. to_double x = Num y \<and> y \<le> x / 2)"
proof -
  have "1 \<le> \<bar>x\<bar>" using assms by simp
  from round_mag_lower [OF this] have "- x / 2 \<le> round_mag \<bar>x\<bar>" using assms by simp
  moreover have "sgn x = - 1" using assms by (simp add: sgn_if)
  ultimately show ?thesis using assms by (simp add: to_double_def)
qed

lemma parseInt_cases: "parseInt s = NaN \<or> (\<exists>z. parseInt s = to_double (of_int z))"
  by (simp only: parseInt_def Let_def split: if_split) blast

lemma index_test_of_int:
  fixes z :: int and n :: nat
  assumes "n < 2 ^ 32"
  defines "i \<equiv> js_sub (to_double (of_int z)) (Num 1)"
  shows "js_ge i (Num 0) \<and> js_lt i (Num (of_nat n)) \<longleftrightarrow> 1 \<le> z \<and> z \<le> int n"
    and "1 \<le> z \<Longrightarrow> z \<le> int n \<Longrightarrow>
         to_double (of_int z) = Num (of_int z) \<and> i = Num (of_int (z - 1))"
proof -
  have n: "rat_of_nat n < 2 ^ 32"
  proof -
    have "rat_of_nat n < rat_of_nat (2 ^ 32)" using assms(1) by (simp only: of_nat_less_iff)
    then show ?thesis by simp
  qed
  have big: False if "js_lt (to_double y) (Num (of_nat n))" "2 ^ 40 \<le> y" for y :: rat
  proof -
    have "1 \<le> y" using that(2) by (rule_tac order_trans [of _ "2 ^ 40"]) simp_all
    from to_double_large [OF this] that(1) obtain y' where "to_double y = Num y'" "y / 2 \<le> y'"
      by auto
    with that n show False by simp
  qed
  have neg: False if "js_ge (to_double y) (Num 0)" "y \<le> - 1" for y :: rat
    using to_double_small [OF that(2)] that by (auto simp add: js_ge_def)
  have exact: "to_double (of_int (z - 1)) = Num (of_int (z - 1))"
    and exact0: "to_double (of_int z) = Num (of_int z)" if "1 \<le> z" "z \<le> 2 ^ 53"
    using that by (simp_all add: to_double_of_int del: of_int_diff)
  consider "z \<le> 0" "- (2 ^ 53) \<le> z" | "z < - (2 ^ 53)" | "1 \<le> z" "z \<le> 2 ^ 53" | "2 ^ 53 < z"
    by linarith
  then show "js_ge i (Num 0) \<and> js_lt i (Num (of_nat n)) \<longleftrightarrow> 1 \<le> z \<and> z \<le> int n"
  proof cases
    case 1
    then have "to_double (of_int z) = Num (of_int z)" by (simp add: to_double_of_int)
    then have "i = to_double (of_int z - 1)" by (simp add: i_def)
    moreover have "rat_of_int z - 1 \<le> - 1" using 1 by simp
    ultimately show ?thesis using neg [of "of_int z - 1"] 1 by auto
  next
    case 2
    moreover have "(0::int) < 2 ^ 53" by simp
    ultimately have "z \<le> - 1" by linarith
    then have "rat_of_int z \<le> rat_of_int (- 1)" by (simp only: of_int_le_iff)
    then have z: "rat_of_int z \<le> - 1" by simp
    from to_double_small [OF z] show ?thesis
    proof
      assume "to_double (rat_of_int z) = NegInf"
      then show ?thesis using 2 by (simp add: i_def js_ge_def)
    next
      assume "\<exists>y. to_double (rat_of_int z) = Num y \<and> y \<le> rat_of_int z / 2"
      then obtain y where y: "to_double (rat_of_int z) = Num y" "y \<le> rat_of_int z / 2" by blast
      with z have "y - 1 \<le> - 1" by simp
      with neg [of "y - 1"] y 2 show ?thesis by (auto simp add: i_def)
    qed
  next
    case 3
    have "i = to_double (rat_of_int z - 1)" by (simp add: i_def exact0 [OF 3])
    also have "rat_of_int z - 1 = rat_of_int (z - 1)" by simp
    finally have "i = to_double (rat_of_int (z - 1))" .
    with exact [OF 3] have i: "i = Num (of_int (z - 1))" by (simp only:)
    have "rat_of_int (z - 1) < rat_of_nat n \<longleftrightarrow> z - 1 < int n"
      by (metis of_int_less_iff of_int_of_nat_eq)
    moreover have "0 \<le> rat_of_int (z - 1)" using 3 by simp
    ultimately show ?thesis using 3 by (simp add: i js_ge_def del: of_int_diff) linarith
  next
    case 4
    then have "rat_of_int (2 ^ 53) < rat_of_int z" by (simp only: of_int_less_iff)
    then have z: "2 ^ 53 < rat_of_int z" by simp
    then have "1 \<le> rat_of_int z" by (rule_tac order_trans [of _ "2 ^ 53"]) simp_all
    from to_double_large [OF this] have "\<not> js_lt i (Num (of_nat n))"
    proof
      assume "to_double (rat_of_int z) = PosInf"
      then show ?thesis by (simp add: i_def)
    next
      assume "\<exists>y. to_double (rat_of_int z) = Num y \<and> rat_of_int z / 2 \<le> y"
      then obtain y where y: "to_double (rat_of_int z) = Num y" "rat_of_int z / 2 \<le> y" by blast
      with z have "2 ^ 40 \<le> y - 1" by simp
      with big [of "y - 1"] y show ?thesis by (auto simp add: i_def)
    qed
    moreover have "\<not> z \<le> int n"
    proof
      assume "z \<le> int n"
      then have "rat_of_int z \<le> rat_of_nat n" by (metis of_int_le_iff of_int_of_nat_eq)
      with z n show False by simp
    qed
    ultimately show ?thesis by simp
  qed
  show "to_double (of_int z) = Num (of_int z) \<and> i = Num (of_int (z - 1))"
    if "1 \<le> z" "z \<le> int n"
  proof -
    have "z \<le> 2 ^ 53"
    proof -
      have "int n < 2 ^ 32" using assms(1) by simp
      with that(2) show ?thesis by simp
    qed
    then have e: "to_double (rat_of_int z) = Num (rat_of_int z)"
      "to_double (rat_of_int (z - 1)) = Num (rat_of_int (z - 1))"
      using exact0 [OF that(1)] exact [OF that(1)] by simp_all
    have "i = to_double (rat_of_int z - 1)" by (simp add: i_def e(1))
    also have "rat_of_int z - 1 = rat_of_int (z - 1)" by simp
    finally have "i = to_double (rat_of_int (z - 1))" .
    with e show ?thesis by (simp only:)
  qed
qed


lemma valid_of_int:
  fixes z :: int and n :: nat
  assumes "n < 2 ^ 32"
  shows "(case to_double (of_int z) of
            Num x \<Rightarrow> x = of_int \<lfloor>x\<rfloor> \<and> 1 \<le> x \<and> x \<le> of_nat n | _ \<Rightarrow> False)
         \<longleftrightarrow> 1 \<le> z \<and> z \<le> int n"
proof -
  have n: "rat_of_nat n < 2 ^ 32"
  proof -
    have "rat_of_nat n < rat_of_nat (2 ^ 32)" using assms(1) by (simp only: of_nat_less_iff)
    then show ?thesis by simp
  qed
  have le: "rat_of_int z \<le> rat_of_nat n \<longleftrightarrow> z \<le> int n"
    by (metis of_int_le_iff of_int_of_nat_eq)
  consider "\<bar>z\<bar> \<le> 2 ^ 53" | "2 ^ 53 < z" | "z < - (2 ^ 53)" by linarith
  then show ?thesis
  proof cases
    case 1
    then show ?thesis by (simp add: to_double_of_int le)
  next
    case 2
    then have "rat_of_int (2 ^ 53) < rat_of_int z" by (simp only: of_int_less_iff)
    then have z: "2 ^ 53 < rat_of_int z" by simp
    then have "1 \<le> rat_of_int z" by (rule_tac order_trans [of _ "2 ^ 53"]) simp_all
    from to_double_large [OF this] z n have "\<not> (case to_double (of_int z) of
            Num x \<Rightarrow> x = of_int \<lfloor>x\<rfloor> \<and> 1 \<le> x \<and> x \<le> of_nat n | _ \<Rightarrow> False)"
      by auto
    moreover have "\<not> z \<le> int n" using z n le by simp
    ultimately show ?thesis by simp
  next
    case 3
    moreover have "(0::int) < 2 ^ 53" by simp
    ultimately have "z \<le> - 1" by linarith
    then have "rat_of_int z \<le> rat_of_int (- 1)" by (simp only: of_int_le_iff)
    then have z: "rat_of_int z \<le> - 1" by simp
    from to_double_small [OF z] z have "\<not> (case to_double (of_int z) of
            Num x \<Rightarrow> x = of_int \<lfloor>x\<rfloor> \<and> 1 \<le> x \<and> x \<le> of_nat n | _ \<Rightarrow> False)"
      by auto
    moreover have "\<not> 1 \<le> z" using \<open>z \<le> - 1\<close> by simp
    ultimately show ?thesis by simp
  qed
qed

lemma parseInt_leading:
  "parseInt s = (case leading_integer s of None \<Rightarrow> NaN | Some z \<Rightarrow> to_double (of_int z))"
  by (simp add: parseInt_def leading_integer_def Let_def)

lemma accepted_iff_prefix:
  assumes "length opts < 2 ^ 32"
  shows "accepted opts l \<longleftrightarrow> prefix_choice opts l"
proof (cases "leading_integer (trim l)")
  case None
  then show ?thesis
    by (simp add: accepted_def prefix_choice_def choice_index_def js_ge_def parseInt_leading)
next
  case (Some z)
  then have z: "parseInt (trim l) = to_double (rat_of_int z)" by (simp add: parseInt_leading)
  have "accepted opts l \<longleftrightarrow> 1 \<le> z \<and> z \<le> int (length opts)"
    unfolding accepted_def choice_index_def z by (simp only: index_test_of_int(1) [OF assms])
  then show ?thesis by (simp add: prefix_choice_def Some)
qed

lemma accepted_of_parse:
  assumes "length opts < 2 ^ 32" "parseInt (trim l) = Num (of_nat n)" "1 \<le> n" "n \<le> length opts"
  shows "accepted opts l"
proof -
  from parseInt_cases [of "trim l"] assms(2) obtain z
    where z: "parseInt (trim l) = to_double (rat_of_int z)" by auto
  have "(case to_double (rat_of_int z) of
            Num x \<Rightarrow> x = of_int \<lfloor>x\<rfloor> \<and> 1 \<le> x \<and> x \<le> of_nat (length opts) | _ \<Rightarrow> False)"
    using assms(3,4) by (simp add: z [symmetric] assms(2))
  then have "1 \<le> z \<and> z \<le> int (length opts)" by (simp only: valid_of_int [OF assms(1)])
  then show ?thesis
    unfolding accepted_def choice_index_def z by (simp only: index_test_of_int(1) [OF assms(1)])
qed

lemma leading_integer_index:
  assumes "length opts < 2 ^ 32" "prefix_choice opts l"
  shows "\<exists>k<length opts. leading_integer (trim l) = Some (int (Suc k))"
proof -
  from assms(2) obtain z where z: "leading_integer (trim l) = Some z" "1 \<le> z"
    "z \<le> int (length opts)"
    by (auto simp add: prefix_choice_def split: option.splits)
  define k where "k = nat (z - 1)"
  have "int (Suc k) = z" using z(2) by (simp add: k_def)
  moreover have "k < length opts" using z(2,3) by (simp add: k_def)
  ultimately show ?thesis using z(1) by auto
qed

lemma spec_integer_leading:
  assumes "spec_integer s = Some z"
  shows "leading_integer s = Some z"
proof -
  define ds where "ds = (if s \<noteq> [] \<and> (hd s = 43 \<or> hd s = 45) then tl s else s)"
  from assms have ds: "ds \<noteq> []" "list_all is_digit ds"
    and z: "z = (if s \<noteq> [] \<and> hd s = 45 then - 1 else 1) * digits_value ds"
    by (auto simp add: spec_integer_def Let_def ds_def split: if_splits)
  from ds have s: "s \<noteq> []" by (auto simp add: ds_def split: if_splits)
  have "\<not> is_white_space (hd s)"
  proof (cases "hd s = 43 \<or> hd s = 45")
    case True
    then show ?thesis by (auto simp add: is_white_space_def)
  next
    case False
    with ds s have "is_digit (hd s)" by (cases s) (simp_all add: ds_def)
    then show ?thesis by (auto simp add: is_digit_def is_white_space_def)
  qed
  with s have dw: "dropWhile is_white_space s = s" by (cases s) simp_all
  have tw: "takeWhile is_digit ds = ds" using ds(2) by (simp add: list_all_iff)
  show ?thesis
    using ds(1) by (simp add: leading_integer_def Let_def dw ds_def [symmetric] tw z)
qed

lemma spec_valid_prefix:
  assumes "spec_valid_choice opts l"
  shows "prefix_choice opts l"
  using assms
  by (auto simp add: spec_valid_choice_def prefix_choice_def spec_integer_leading
      split: option.splits)

lemma accepted_index:
  assumes "length opts < 2 ^ 32" "accepted opts l"
  shows "\<exists>k<length opts. choice_index l = Num (of_nat k)
           \<and> parseInt (trim l) = Num (of_nat (Suc k))"
proof -
  from assms(2) have "parseInt (trim l) \<noteq> NaN"
    by (auto simp add: accepted_def choice_index_def js_ge_def)
  with parseInt_cases [of "trim l"] obtain z
    where z: "parseInt (trim l) = to_double (rat_of_int z)" by blast
  from assms(2) have zr: "1 \<le> z" "z \<le> int (length opts)"
    unfolding accepted_def choice_index_def z
    by (simp_all only: index_test_of_int(1) [OF assms(1)])
  from index_test_of_int(2) [OF assms(1) zr]
  have e1: "to_double (rat_of_int z) = Num (rat_of_int z)"
    and e2: "js_sub (to_double (rat_of_int z)) (Num 1) = Num (rat_of_int (z - 1))"
    by blast+
  have e: "to_double (rat_of_int z) = Num (rat_of_int z)"
    "choice_index l = Num (rat_of_int (z - 1))"
    unfolding choice_index_def z by (rule e1, rule e2)
  define k where "k = nat (z - 1)"
  have k: "int k = z - 1" "int (Suc k) = z" using zr(1) by (simp_all add: k_def)
  have "k < length opts" using zr k by linarith
  moreover have "rat_of_int (z - 1) = rat_of_nat k" by (simp only: k(1) [symmetric] of_int_of_nat_eq)
  moreover have "rat_of_int z = rat_of_nat (Suc k)" by (simp only: k(2) [symmetric] of_int_of_nat_eq)
  ultimately show ?thesis using e z by auto
qed

lemma select_loop_reject:
  assumes "\<forall>m<n. \<not> accepted opts (rl !! m)"
  shows "select_loop rl opts out =
     select_loop (sdrop n rl) opts
       (out @ concat (replicate n [YourChoice, PleaseEnter (length opts)]))"
  using assms
proof (induction n arbitrary: rl out)
  case 0
  then show ?case by simp
next
  case (Suc n)
  from Suc.prems have h: "\<not> accepted opts (shd rl)" by (metis snth.simps(1) zero_less_Suc)
  from Suc.prems have t: "\<forall>m<n. \<not> accepted opts (stl rl !! m)"
    by (metis Suc_less_eq snth.simps(2))
  have "select_loop rl opts out =
      select_loop (stl rl) opts (out @ [YourChoice, PleaseEnter (length opts)])"
    using h by (subst select_loop_unfold) simp
  also have "\<dots> = select_loop (sdrop n (stl rl)) opts
      ((out @ [YourChoice, PleaseEnter (length opts)])
       @ concat (replicate n [YourChoice, PleaseEnter (length opts)]))"
    by (rule Suc.IH [OF t])
  finally show ?case by simp
qed

lemma select_loop_Some_accepted:
  assumes "select_loop rl opts out = Some y"
  shows "\<exists>n. accepted opts (rl !! n)"
  using assms
proof (induct rule: select_loop.raw_induct [rotated, consumes 1])
  case (1 select_loop' rl opts out y)
  show ?case
  proof (cases "accepted opts (shd rl)")
    case True
    then have "accepted opts (rl !! 0)" by simp
    then show ?thesis ..
  next
    case False
    with 1(2) have "select_loop' (stl rl) opts (out @ [YourChoice, PleaseEnter (length opts)]) = Some y"
      by (auto simp add: prompt_def accepted_def choice_index_def Let_def split: if_splits)
    from 1(1) [OF this] obtain n where "accepted opts (stl rl !! n)" ..
    then have "accepted opts (rl !! Suc n)" by simp
    then show ?thesis ..
  qed
qed

lemma select_loop_never:
  assumes "\<forall>n. \<not> accepted opts (rl !! n)"
  shows "select_loop rl opts out = None"
proof (cases "select_loop rl opts out")
  case None
  then show ?thesis .
next
  case (Some y)
  from select_loop_Some_accepted [OF this] assms show ?thesis by blast
qed


lemma select_loop_first_accepted:
  assumes "accepted opts (rl !! n)" "\<forall>m<n. \<not> accepted opts (rl !! m)"
  shows "select_loop rl opts out =
     Some ((choice_index (rl !! n), js_nth opts (choice_index (rl !! n))), sdrop (Suc n) rl,
           out @ concat (replicate n [YourChoice, PleaseEnter (length opts)]) @ [YourChoice])"
proof -
  have "select_loop rl opts out =
     select_loop (sdrop n rl) opts
       (out @ concat (replicate n [YourChoice, PleaseEnter (length opts)]))"
    using assms(2) by (rule select_loop_reject)
  also have "\<dots> = Some ((choice_index (rl !! n), js_nth opts (choice_index (rl !! n))),
           sdrop (Suc n) rl,
           (out @ concat (replicate n [YourChoice, PleaseEnter (length opts)])) @ [YourChoice])"
    using assms(1) by (subst select_loop_unfold) (simp del: sdrop.simps)
  finally show ?thesis by (simp del: sdrop.simps)
qed

text \<open>
  C7, as the code has it. The test of the loop is on the integer that \<^verbatim>\<open>parseInt\<close> reads
  at the start of the trimmed line. For every list of fewer than \<open>2\<^sup>3\<^sup>2\<close> options (the most
  an array holds) and every stream of typed lines: if no line starts with an integer
  between 1 and the number of options, \<^verbatim>\<open>select\<close> never returns; otherwise it returns at
  the first such line, after one rejection message for each line before it, and the index
  returned is that integer minus one, an index of the option list, together with that
  option. Every line that is an integer between 1 and the number of options is such a
  line. With three options and the lines abc, 9 and 2 it asks three times, rejects twice
  and returns index 1.
\<close>

theorem select_until_prefix_valid:
  assumes "length opts < 2 ^ 32"
  shows "((\<forall>n. \<not> prefix_choice opts (rl !! n)) \<longrightarrow> select rl qtext opts = None)
    \<and> (prefix_choice opts (rl !! n) \<and> (\<forall>m<n. \<not> prefix_choice opts (rl !! m)) \<longrightarrow>
        (\<exists>k<length opts. leading_integer (trim (rl !! n)) = Some (int (Suc k))
           \<and> select rl qtext opts =
               Some ((Num (of_nat k), Some (opts ! k)), sdrop (Suc n) rl,
                     ShowQuestion qtext
                     # map (\<lambda>(i, option). ShowOption (i + 1) option) (enumerate 0 opts)
                     @ concat (replicate n [YourChoice, PleaseEnter (length opts)])
                     @ [YourChoice])))
    \<and> (spec_valid_choice opts l \<longrightarrow> prefix_choice opts l)
    \<and> select (line ''abc'' ## line ''9'' ## line ''2'' ## rest) qtext [a, b, c] =
        Some ((Num 1, Some b), rest,
              [ShowQuestion qtext, ShowOption 1 a, ShowOption 2 b, ShowOption 3 c,
               YourChoice, PleaseEnter 3, YourChoice, PleaseEnter 3, YourChoice])"
proof (intro conjI impI)
  assume "\<forall>n. \<not> prefix_choice opts (rl !! n)"
  then have "\<forall>n. \<not> accepted opts (rl !! n)" by (simp add: accepted_iff_prefix [OF assms])
  then show "select rl qtext opts = None" unfolding select_def by (rule select_loop_never)
next
  assume h: "prefix_choice opts (rl !! n) \<and> (\<forall>m<n. \<not> prefix_choice opts (rl !! m))"
  then have a: "accepted opts (rl !! n)" "\<forall>m<n. \<not> accepted opts (rl !! m)"
    by (simp_all add: accepted_iff_prefix [OF assms])
  from accepted_index [OF assms a(1)] obtain k where k: "k < length opts"
    "choice_index (rl !! n) = Num (of_nat k)" "parseInt (trim (rl !! n)) = Num (of_nat (Suc k))"
    by blast
  from h leading_integer_index [OF assms] obtain k' where k': "k' < length opts"
    "leading_integer (trim (rl !! n)) = Some (int (Suc k'))"
    by blast
  have "Suc k' \<le> 2 ^ 53"
  proof -
    have "Suc k' \<le> 2 ^ 32" using k'(1) assms by simp
    then show ?thesis by simp
  qed
  then have td: "to_double (rat_of_nat (Suc k')) = Num (rat_of_nat (Suc k'))"
    by (rule to_double_of_nat)
  have "parseInt (trim (rl !! n)) = to_double (rat_of_int (int (Suc k')))"
    by (simp only: parseInt_leading k'(2) option.case)
  also have "rat_of_int (int (Suc k')) = rat_of_nat (Suc k')" by (simp only: of_int_of_nat_eq)
  finally have "parseInt (trim (rl !! n)) = Num (rat_of_nat (Suc k'))" by (simp only: td)
  with k(3) have "rat_of_nat (Suc k) = rat_of_nat (Suc k')" by (simp only: jsnum.inject)
  then have "Suc k = Suc k'" by (simp only: of_nat_eq_iff)
  then have kk: "k' = k" by simp
  have "select rl qtext opts =
      Some ((Num (of_nat k), Some (opts ! k)), sdrop (Suc n) rl,
            ShowQuestion qtext
            # map (\<lambda>(i, option). ShowOption (i + 1) option) (enumerate 0 opts)
            @ concat (replicate n [YourChoice, PleaseEnter (length opts)])
            @ [YourChoice])"
    unfolding select_def by (simp add: select_loop_first_accepted [OF a] k(1,2) del: sdrop.simps)
  with k(1) k'(2) kk
  show "\<exists>k<length opts. leading_integer (trim (rl !! n)) = Some (int (Suc k))
           \<and> select rl qtext opts =
               Some ((Num (of_nat k), Some (opts ! k)), sdrop (Suc n) rl,
                     ShowQuestion qtext
                     # map (\<lambda>(i, option). ShowOption (i + 1) option) (enumerate 0 opts)
                     @ concat (replicate n [YourChoice, PleaseEnter (length opts)])
                     @ [YourChoice])"
    by blast
next
  assume "spec_valid_choice opts l"
  then show "prefix_choice opts l" by (rule spec_valid_prefix)
next
  show "select (line ''abc'' ## line ''9'' ## line ''2'' ## rest) qtext [a, b, c] =
        Some ((Num 1, Some b), rest,
              [ShowQuestion qtext, ShowOption 1 a, ShowOption 2 b, ShowOption 3 c,
               YourChoice, PleaseEnter 3, YourChoice, PleaseEnter 3, YourChoice])"
    apply (simp add: select_def)
    apply (subst select_loop_unfold, simp add: parse_simps)
    apply (subst select_loop_unfold, simp add: parse_simps)
    apply (subst select_loop_unfold, simp add: parse_simps)
    apply (simp add: js_nth_def)
    done
qed

lemma snth_sconst [simp]: "sconst x !! n = x"
  by (induction n) simp_all

lemmas choice_simps = prefix_choice_def spec_valid_choice_def leading_integer_def
  spec_integer_def trim_def line_def is_white_space_def is_digit_def digits_value_def

text \<open>C7 at the three options of the sample question: a stream that only ever says abc
  is asked forever, after abc and 9 the line 2 is taken, and the line 2 is an integer in
  the specification's sense.\<close>

theorem select_until_prefix_valid_witness:
  "length (options sample_question) < 2 ^ 32
   \<and> select (sconst (line ''abc'')) ''Pick one'' (options sample_question) = None
   \<and> spec_valid_choice (options sample_question) (line ''2'')
   \<and> prefix_choice (options sample_question)
        ((line ''abc'' ## line ''9'' ## line ''2'' ## sconst (line ''3'')) !! 2)
   \<and> select (line ''abc'' ## line ''9'' ## line ''2'' ## sconst (line ''3'')) ''Pick one''
         (options sample_question)
       = Some ((Num 1, Some ''object''), sconst (line ''3''),
               [ShowQuestion ''Pick one'', ShowOption 1 ''null'', ShowOption 2 ''object'',
                ShowOption 3 ''undefined'', YourChoice, PleaseEnter 3, YourChoice,
                PleaseEnter 3, YourChoice])"
proof -
  let ?opts = "options sample_question"
  let ?rl = "line ''abc'' ## line ''9'' ## line ''2'' ## sconst (line ''3'')"
  have len: "length ?opts < 2 ^ 32" by (simp add: sample_question_def)
  have no: "\<not> prefix_choice ?opts (line ''abc'')" "\<not> prefix_choice ?opts (line ''9'')"
    and sv: "spec_valid_choice ?opts (line ''2'')"
    by (simp_all add: choice_simps sample_question_def)
  have yes: "prefix_choice ?opts (line ''2'')"
    by (rule select_until_prefix_valid [OF len, THEN conjunct2, THEN conjunct2,
          THEN conjunct1, THEN mp, OF sv])
  have never: "\<forall>n. \<not> prefix_choice ?opts (sconst (line ''abc'') !! n)" using no by simp
  have at2: "?rl !! 2 = line ''2''" by (simp add: numeral_2_eq_2)
  have before: "\<forall>m<2. \<not> prefix_choice ?opts (?rl !! m)"
    using no by (simp add: numeral_2_eq_2 less_Suc_eq)
  have 1: "select (sconst (line ''abc'')) ''Pick one'' ?opts = None"
    by (rule select_until_prefix_valid [OF len, THEN conjunct1, THEN mp, OF never])
  have hyp: "prefix_choice ?opts (?rl !! 2) \<and> (\<forall>m<2. \<not> prefix_choice ?opts (?rl !! m))"
    using yes before by (simp only: at2)
  from select_until_prefix_valid [OF len, where qtext = "''Pick one''" and rl = ?rl and n = 2,
      THEN conjunct2, THEN conjunct1, THEN mp, OF hyp]
  obtain k where k: "k < length ?opts" "leading_integer (trim (?rl !! 2)) = Some (int (Suc k))"
    "select ?rl ''Pick one'' ?opts =
       Some ((Num (of_nat k), Some (?opts ! k)), sdrop (Suc 2) ?rl,
             ShowQuestion ''Pick one''
             # map (\<lambda>(i, option). ShowOption (i + 1) option) (enumerate 0 ?opts)
             @ concat (replicate 2 [YourChoice, PleaseEnter (length ?opts)])
             @ [YourChoice])"
    by blast
  have "leading_integer (trim (line ''2'')) = Some 2" by (simp add: choice_simps)
  with k(2) at2 have "int (Suc k) = 2" by simp
  then have "k = 1" by simp
  with k(3) have 2: "select ?rl ''Pick one'' ?opts =
       Some ((Num 1, Some ''object''), sconst (line ''3''),
               [ShowQuestion ''Pick one'', ShowOption 1 ''null'', ShowOption 2 ''object'',
                ShowOption 3 ''undefined'', YourChoice, PleaseEnter 3, YourChoice,
                PleaseEnter 3, YourChoice])"
    by (simp add: sample_question_def numeral_2_eq_2 numeral_3_eq_3)
  from len 1 sv yes at2 2 show ?thesis by simp
qed

text \<open>
  C7 as the specification words it fails at the line 2.9 with the three options of the
  sample question: the line is not an integer, so it does not parse to an integer between
  1 and 3, and yet it is not rejected: \<^verbatim>\<open>select\<close> returns at once, with index 1 and
  without a rejection message.
\<close>

theorem select_takes_non_integer_counterexample:
  "\<not> spec_valid_choice (options sample_question) (line ''2.9'')
   \<and> select (line ''2.9'' ## sconst (line ''1'')) ''Pick one'' (options sample_question) =
       Some ((Num 1, Some ''object''), sconst (line ''1''),
             [ShowQuestion ''Pick one'', ShowOption 1 ''null'', ShowOption 2 ''object'',
              ShowOption 3 ''undefined'', YourChoice])"
proof -
  have "\<not> spec_valid_choice (options sample_question) (line ''2.9'')"
    by (simp add: choice_simps sample_question_def)
  moreover have "select (line ''2.9'' ## sconst (line ''1'')) ''Pick one''
      (options sample_question) =
       Some ((Num 1, Some ''object''), sconst (line ''1''),
             [ShowQuestion ''Pick one'', ShowOption 1 ''null'', ShowOption 2 ''object'',
              ShowOption 3 ''undefined'', YourChoice])"
    apply (simp add: select_def sample_question_def)
    apply (subst select_loop_unfold, simp add: parse_simps)
    apply (simp add: js_nth_def)
    done
  ultimately show ?thesis by simp
qed

lemma parseInt_digits_prefix:
  assumes "ds \<noteq> []" "list_all is_digit ds" "\<not> is_digit c"
  shows "parseInt (ds @ c # tail) = parseInt ds"
proof -
  obtain d ds' where ds: "ds = d # ds'" using assms(1) by (cases ds) auto
  with assms(2) have d: "is_digit d" by simp
  then have nw: "\<not> is_white_space d" and ns: "d \<noteq> 43" "d \<noteq> 45"
    by (auto simp add: is_digit_def is_white_space_def)
  have t1: "takeWhile is_digit (ds @ c # tail) = ds"
    using assms(2,3) by (simp add: takeWhile_append2 list_all_iff)
  have t2: "takeWhile is_digit ds = ds" using assms(2) by (simp add: list_all_iff)
  show ?thesis
    using nw ns t1 t2 by (simp add: parseInt_def Let_def ds)
qed

text \<open>
  C10. A typed line is accepted as soon as \<^verbatim>\<open>parseInt\<close> of the trimmed line is a whole
  number \<open>n\<close> between 1 and the number of options (fewer than \<open>2\<^sup>3\<^sup>2\<close>): \<^verbatim>\<open>select\<close> returns
  at that line, with index \<open>n - 1\<close> and no rejection message. \<^verbatim>\<open>parseInt\<close> reads the
  leading digits and ignores what follows them, so the line need not be a numeral: with
  three options the line 2x parses to 2 and is taken at once, with index 1.
\<close>

theorem select_accepts_integer_prefix:
  assumes "length opts < 2 ^ 32" "parseInt (trim l) = Num (of_nat n)" "1 \<le> n" "n \<le> length opts"
  shows "select (l ## rest) qtext opts =
      Some ((Num (of_nat (n - 1)), Some (opts ! (n - 1))), rest,
            ShowQuestion qtext
            # map (\<lambda>(i, option). ShowOption (i + 1) option) (enumerate 0 opts)
            @ [YourChoice])
    \<and> (ds \<noteq> [] \<and> list_all is_digit ds \<and> \<not> is_digit c \<longrightarrow>
         parseInt (ds @ c # tail) = parseInt ds)
    \<and> parseInt (trim (line ''2x'')) = Num 2
    \<and> select (line ''2x'' ## rest) qtext [a, b, c'] =
        Some ((Num 1, Some b), rest,
              [ShowQuestion qtext, ShowOption 1 a, ShowOption 2 b, ShowOption 3 c', YourChoice])"
proof (intro conjI impI)
  have acc: "accepted opts l" using assms by (rule accepted_of_parse)
  have "n - 1 \<le> 2 ^ 53"
  proof -
    have "n < 2 ^ 32" using assms(1,4) by simp
    then show ?thesis by simp
  qed
  then have td: "to_double (rat_of_nat (n - 1)) = Num (rat_of_nat (n - 1))"
    by (rule to_double_of_nat)
  have df: "rat_of_nat n - 1 = rat_of_nat (n - 1)" using assms(3) by (simp add: of_nat_diff)
  have "choice_index l = to_double (rat_of_nat n - 1)"
    by (simp only: choice_index_def assms(2) js_sub.simps)
  then have ci: "choice_index l = Num (of_nat (n - 1))" by (simp only: df td)
  have "n - 1 < length opts" using assms(3,4) by simp
  then show "select (l ## rest) qtext opts =
      Some ((Num (of_nat (n - 1)), Some (opts ! (n - 1))), rest,
            ShowQuestion qtext
            # map (\<lambda>(i, option). ShowOption (i + 1) option) (enumerate 0 opts)
            @ [YourChoice])"
    by (simp add: select_accepted [OF acc] ci)
next
  assume "ds \<noteq> [] \<and> list_all is_digit ds \<and> \<not> is_digit c"
  then show "parseInt (ds @ c # tail) = parseInt ds" by (simp add: parseInt_digits_prefix)
next
  show "parseInt (trim (line ''2x'')) = Num 2" by (simp add: parse_simps)
next
  show "select (line ''2x'' ## rest) qtext [a, b, c'] =
        Some ((Num 1, Some b), rest,
              [ShowQuestion qtext, ShowOption 1 a, ShowOption 2 b, ShowOption 3 c', YourChoice])"
    apply (simp add: select_def)
    apply (subst select_loop_unfold, simp add: parse_simps)
    apply (simp add: js_nth_def)
    done
qed

text \<open>C10 at the three options of the sample question and the line 2x.\<close>

theorem select_accepts_integer_prefix_witness:
  "length (options sample_question) < 2 ^ 32
   \<and> parseInt (trim (line ''2x'')) = Num (of_nat 2) \<and> (1::nat) \<le> 2
   \<and> 2 \<le> length (options sample_question)
   \<and> line ''2'' \<noteq> [] \<and> list_all is_digit (line ''2'') \<and> \<not> is_digit 120
   \<and> parseInt (line ''2'' @ 120 # []) = parseInt (line ''2'')
   \<and> select (line ''2x'' ## sconst (line ''1'')) ''Pick one'' (options sample_question) =
       Some ((Num 1, Some ''object''), sconst (line ''1''),
             [ShowQuestion ''Pick one'', ShowOption 1 ''null'', ShowOption 2 ''object'',
              ShowOption 3 ''undefined'', YourChoice])"
proof -
  have h: "length (options sample_question) < 2 ^ 32"
    "parseInt (trim (line ''2x'')) = Num (of_nat 2)" "(1::nat) \<le> 2"
    "2 \<le> length (options sample_question)"
    by (simp_all add: sample_question_def parse_simps)
  have d: "line ''2'' \<noteq> []" "list_all is_digit (line ''2'')" "\<not> is_digit 120"
    by (simp_all add: line_def is_digit_def)
  from select_accepts_integer_prefix [OF h, where rest = "sconst (line ''1'')"
      and qtext = "''Pick one''" and ds = "line ''2''" and c = 120 and tail = "[]"] h d
  show ?thesis by (simp add: sample_question_def)
qed

section \<open>Shuffling\<close>

lemma random_index:
  fixes n :: nat
  assumes "0 \<le> r" "r < 1" "to_double r = Num r" "0 < n" "n < 2 ^ 32"
  shows "\<exists>k<n. Math_floor (js_mul (Num r) (Num (of_nat n))) = Num (of_nat k)"
proof -
  define N :: rat where "N = of_nat n"
  have N1: "1 \<le> N" using assms(4) by (simp add: N_def)
  have N32: "N \<le> 2 ^ 32"
  proof -
    have "n \<le> 2 ^ 32" using assms(5) by simp
    then have "rat_of_nat n \<le> rat_of_nat (2 ^ 32)" by (simp only: of_nat_le_iff)
    then show ?thesis by (simp add: N_def)
  qed
  have r1: "r \<le> 1 - 1 / 2 ^ 53" using assms(3,2) by (rule double_below_one)
  define x where "x = r * N"
  have x0: "0 \<le> x" using assms(1) N1 by (simp add: x_def)
  have xN: "x \<le> (1 - 1 / 2 ^ 53) * N" unfolding x_def using r1 N1 by (intro mult_right_mono) simp_all
  have "x \<le> 1 * N" unfolding x_def using assms(2) N1 by (intro mult_right_mono) simp_all
  with N32 have "x \<le> 2 ^ 32" by simp
  also have "(2::rat) ^ 32 \<le> 2 ^ 1000" by simp
  finally have x1000: "x \<le> 2 ^ 1000" .
  from to_double_approx [OF x0 x1000] obtain y
    where y: "to_double x = Num y" "0 \<le> y" "\<bar>y - x\<bar> \<le> x / 2 ^ 53 + 1 / 2 ^ 1075"
    by blast
  from y(3) have "y - x \<le> x / 2 ^ 53 + 1 / 2 ^ 1075" by (rule abs_le_D1)
  then have "y \<le> x * (1 + 1 / 2 ^ 53) + 1 / 2 ^ 1075" by (simp add: algebra_simps)
  also have "x * (1 + 1 / 2 ^ 53) \<le> ((1 - 1 / 2 ^ 53) * N) * (1 + 1 / 2 ^ 53)"
    using xN by (intro mult_right_mono) simp_all
  also have "\<dots> = N - N / 2 ^ 106" by (simp add: algebra_simps)
  finally have "y \<le> N - N / 2 ^ 106 + 1 / 2 ^ 1075" by simp
  moreover have "(1::rat) / 2 ^ 1075 < 1 / 2 ^ 106" by simp
  moreover have "1 / 2 ^ 106 \<le> N / 2 ^ 106" using N1 by (intro divide_right_mono) simp_all
  ultimately have yN: "y < N" by linarith
  define k where "k = nat \<lfloor>y\<rfloor>"
  have f0: "0 \<le> \<lfloor>y\<rfloor>" using y(2) by simp
  have "y < rat_of_int (int n)" using yN by (simp add: N_def)
  then have "\<lfloor>y\<rfloor> < int n" by (simp only: floor_less_iff)
  then have "k < n" unfolding k_def using f0 by (simp only: nat_less_iff)
  moreover have "rat_of_int \<lfloor>y\<rfloor> = rat_of_nat k" using f0 by (simp add: k_def)
  then have "Math_floor (js_mul (Num r) (Num (of_nat n))) = Num (of_nat k)"
    using y(1) by (simp add: x_def N_def)
  ultimately show ?thesis by blast
qed

lemma array_index_of_nat [simp]: "array_index (Num (of_nat k)) = Some k"
  by simp

lemma shuffle_loop_permutes:
  assumes "result < length h" "n = 0 \<or> n < length (h ! result)" "length (h ! result) < 2 ^ 32"
    and "\<forall>r\<in>sset rnd. 0 \<le> r \<and> r < 1 \<and> to_double r = Num r"
  shows "\<exists>h'. shuffle_loop n rnd result h = Some h' \<and> length h' = length h
    \<and> (\<forall>a<length h. a \<noteq> result \<longrightarrow> h' ! a = h ! a)
    \<and> mset (h' ! result) = mset (h ! result)"
  using assms
proof (induction n arbitrary: rnd h)
  case 0
  then show ?case by simp
next
  case (Suc n)
  let ?xs = "h ! result"
  from Suc.prems(2) have i: "Suc n < length ?xs" by simp
  have r: "0 \<le> shd rnd" "shd rnd < 1" "to_double (shd rnd) = Num (shd rnd)"
    using Suc.prems(4) by (simp_all add: shd_sset)
  have "Suc n + 1 < 2 ^ 32" using i Suc.prems(3) by linarith
  from random_index [OF r _ this] obtain k where k: "k < Suc n + 1"
    "Math_floor (js_mul (Num (shd rnd)) (Num (of_nat (Suc n + 1)))) = Num (of_nat k)"
    by auto
  have kl: "k < length ?xs" using k(1) i by simp
  define ys where "ys = ?xs[Suc n := ?xs ! k, k := ?xs ! Suc n]"
  have sw: "swap ?xs (Suc n) (Num (of_nat k)) = Some ys"
    using i kl by (simp add: swap_def ys_def)
  have ms: "mset ys = mset ?xs" unfolding ys_def using i kl by (simp add: mset_swap)
  have ln: "length ys = length ?xs" by (simp add: ys_def)
  let ?h1 = "h[result := ys]"
  have h1: "?h1 ! result = ys" "length ?h1 = length h" using Suc.prems(1) by simp_all
  have tl: "\<forall>r\<in>sset (stl rnd). 0 \<le> r \<and> r < 1 \<and> to_double r = Num r"
    using Suc.prems(4) by (auto dest: stl_sset)
  have "\<exists>h'. shuffle_loop n (stl rnd) result ?h1 = Some h' \<and> length h' = length ?h1
    \<and> (\<forall>a<length ?h1. a \<noteq> result \<longrightarrow> h' ! a = ?h1 ! a)
    \<and> mset (h' ! result) = mset (?h1 ! result)"
  proof (rule Suc.IH [OF _ _ _ tl])
    show "result < length ?h1" using Suc.prems(1) by simp
    show "n = 0 \<or> n < length (?h1 ! result)" using i by (simp add: h1 ln)
    show "length (?h1 ! result) < 2 ^ 32" using Suc.prems(3) by (simp add: h1 ln)
  qed
  then obtain h' where h': "shuffle_loop n (stl rnd) result ?h1 = Some h'"
    "length h' = length ?h1" "\<forall>a<length ?h1. a \<noteq> result \<longrightarrow> h' ! a = ?h1 ! a"
    "mset (h' ! result) = mset (?h1 ! result)"
    by blast
  have "shuffle_loop (Suc n) rnd result h = Some h'"
    by (simp only: shuffle_loop.simps Let_def k(2) sw option.case h'(1))
  moreover have "length h' = length h" using h'(2) h1(2) by simp
  moreover have "\<forall>a<length h. a \<noteq> result \<longrightarrow> h' ! a = h ! a" using h'(3) by simp
  moreover have "mset (h' ! result) = mset (h ! result)" using h'(4) ms by (simp add: h1)
  ultimately show ?case by blast
qed


text \<open>
  C6. For an array of the store with fewer than \<open>2\<^sup>3\<^sup>2\<close> elements (the most an array
  holds) and random numbers that are binary64 values in \<open>[0, 1)\<close>, as \<^verbatim>\<open>Math.random\<close>
  gives them, \<^verbatim>\<open>shuffle\<close> returns a new array: its address is not in the store before,
  every array that was in the store, the input among them, is unchanged, and the new
  array has the length and the multiset of elements of the input. An empty or a singleton
  input yields itself.
\<close>

theorem shuffle_permutation:
  assumes "array < length h" "length (h ! array) < 2 ^ 32"
    and "\<forall>r\<in>sset rnd. 0 \<le> r \<and> r < 1 \<and> to_double r = Num r"
  shows "\<exists>h'. shuffle rnd h array = Some (length h, h')
    \<and> length h' = Suc (length h)
    \<and> take (length h) h' = h
    \<and> h' ! array = h ! array
    \<and> length (h' ! length h) = length (h ! array)
    \<and> mset (h' ! length h) = mset (h ! array)
    \<and> (length (h ! array) \<le> 1 \<longrightarrow> h' ! length h = h ! array)"
proof -
  let ?r = "length h"
  let ?h1 = "h @ [h ! array]"
  let ?n = "length (?h1 ! ?r) - 1"
  have c: "?h1 ! ?r = h ! array" by simp
  have "\<exists>h'. shuffle_loop ?n rnd ?r ?h1 = Some h' \<and> length h' = length ?h1
    \<and> (\<forall>a<length ?h1. a \<noteq> ?r \<longrightarrow> h' ! a = ?h1 ! a)
    \<and> mset (h' ! ?r) = mset (?h1 ! ?r)"
  proof (rule shuffle_loop_permutes [OF _ _ _ assms(3)])
    show "?r < length ?h1" by simp
    show "?n = 0 \<or> ?n < length (?h1 ! ?r)" by (simp only: c) linarith
    show "length (?h1 ! ?r) < 2 ^ 32" using assms(2) by (simp only: c)
  qed
  then obtain h' where h': "shuffle_loop ?n rnd ?r ?h1 = Some h'" "length h' = length ?h1"
    "\<forall>a<length ?h1. a \<noteq> ?r \<longrightarrow> h' ! a = ?h1 ! a" "mset (h' ! ?r) = mset (?h1 ! ?r)"
    by blast
  have sh: "shuffle rnd h array = Some (?r, h')"
    using assms(1) h'(1) by (simp add: shuffle_def Let_def)
  have len: "length h' = Suc ?r" using h'(2) by simp
  have old: "h' ! a = h ! a" if "a < ?r" for a
    using h'(3) that by (simp add: nth_append)
  have tk: "take ?r h' = h"
    by (rule nth_equalityI) (simp_all add: len old)
  have ms: "mset (h' ! ?r) = mset (h ! array)" using h'(4) by simp
  have ln: "length (h' ! ?r) = length (h ! array)" using ms by (rule mset_eq_length)
  have small: "h' ! ?r = h ! array" if "length (h ! array) \<le> 1"
  proof -
    from that have "?n = 0" by simp
    with h'(1) have "h' = ?h1" by simp
    then show ?thesis by simp
  qed
  from sh len tk old [OF assms(1)] ln ms small show ?thesis by blast
qed

text \<open>The constructor therefore always returns a session, over a permutation of the
  questions it was given.\<close>

lemma Quiz_new_total:
  assumes "length qs < 2 ^ 32"
    and "\<forall>r\<in>sset rnd. 0 \<le> r \<and> r < 1 \<and> to_double r = Num r"
  shows "\<exists>s. Quiz_new rnd qs name = Some s \<and> mset (questions s) = mset qs
    \<and> currentIndex s = 0 \<and> score s = 0 \<and> answers s = [] \<and> categoryName s = name"
proof -
  have "\<exists>h'. shuffle_loop (length qs - 1) rnd 1 [qs, qs] = Some h' \<and> length h' = length [qs, qs]
    \<and> (\<forall>a<length [qs, qs]. a \<noteq> 1 \<longrightarrow> h' ! a = [qs, qs] ! a)
    \<and> mset (h' ! 1) = mset ([qs, qs] ! 1)"
  proof (rule shuffle_loop_permutes [OF _ _ _ assms(2)])
    show "1 < length [qs, qs]" by simp
    show "length qs - 1 = 0 \<or> length qs - 1 < length ([qs, qs] ! 1)" by simp linarith
    show "length ([qs, qs] ! 1) < 2 ^ 32" using assms(1) by simp
  qed
  then obtain h' where "shuffle_loop (length qs - 1) rnd 1 [qs, qs] = Some h'"
    "mset (h' ! 1) = mset qs"
    by auto
  then show ?thesis by (simp add: Quiz_new_def shuffle_def)
qed

lemma to_double_3_2 [simp]: "to_double (3 / 2) = Num (3 / 2)"
  using to_double_eval [of "3 / 2" 0 "3 * 2 ^ 51"] by simp

lemma floor_3_2: "\<lfloor>3 / 2 :: rat\<rfloor> = 1"
  by (simp add: floor_eq_iff)

lemma shuffle_sample:
  "shuffle (sconst (1 / 2)) [[10, 20, 30 :: nat]] 0 = Some (1, [[10, 20, 30], [10, 30, 20]])"
  by (simp add: shuffle_def Let_def swap_def numeral_2_eq_2 floor_3_2)

text \<open>C6 at a store that holds the one array 10, 20, 30, every random number one half:
  the copy is 10, 30, 20 and the input is as it was.\<close>

theorem shuffle_permutation_witness:
  "(0::nat) < length [[10, 20, 30 :: nat]] \<and> length ([[10, 20, 30 :: nat]] ! 0) < 2 ^ 32
   \<and> sset (sconst (1 / 2 :: rat)) = {1 / 2} \<and> (0::rat) \<le> 1 / 2 \<and> (1 / 2 :: rat) < 1
   \<and> to_double (1 / 2) = Num (1 / 2)
   \<and> shuffle (sconst (1 / 2)) [[10, 20, 30 :: nat]] 0 = Some (1, [[10, 20, 30], [10, 30, 20]])
   \<and> mset [10, 30, 20 :: nat] = mset [10, 20, 30]"
proof -
  have h: "(0::nat) < length [[10, 20, 30 :: nat]]" "length ([[10, 20, 30 :: nat]] ! 0) < 2 ^ 32"
    "\<forall>r\<in>sset (sconst (1 / 2 :: rat)). 0 \<le> r \<and> r < 1 \<and> to_double r = Num r"
    by simp_all
  from shuffle_permutation [OF h] obtain h' where
    "shuffle (sconst (1 / 2)) [[10, 20, 30 :: nat]] 0 = Some (length [[10, 20, 30 :: nat]], h')"
    "mset (h' ! length [[10, 20, 30 :: nat]]) = mset ([[10, 20, 30 :: nat]] ! 0)"
    by blast
  then have "mset [10, 30, 20 :: nat] = mset [10, 20, 30]" by (simp add: shuffle_sample)
  with h(1,2) show ?thesis by (simp add: shuffle_sample)
qed

section \<open>The results report\<close>

lemma replicate_of_mset:
  assumes "mset xs = mset (replicate n x)"
  shows "xs = replicate n x"
proof -
  from assms have "set xs = set (replicate n x)" by (rule mset_eq_setD)
  then have "\<forall>y\<in>set xs. y = x" by (auto split: if_splits)
  moreover from assms have "length xs = n" by (metis length_replicate mset_eq_length)
  ultimately show ?thesis by (simp add: replicate_eqI)
qed

lemma Quiz_new_drill:
  assumes "n < 2 ^ 32"
  shows "Quiz_new (sconst 0) (replicate n sample_question) ''JavaScript'' = Some (drill_quiz n 0 0)"
proof -
  have "\<forall>r\<in>sset (sconst (0::rat)). 0 \<le> r \<and> r < 1 \<and> to_double r = Num r" by simp
  from Quiz_new_total [OF _ this, of "replicate n sample_question" "''JavaScript''"] assms
  obtain s where s: "Quiz_new (sconst 0) (replicate n sample_question) ''JavaScript'' = Some s"
    "mset (questions s) = mset (replicate n sample_question)"
    "currentIndex s = 0" "score s = 0" "answers s = []" "categoryName s = ''JavaScript''"
    by auto
  from s(2) have "questions s = replicate n sample_question" by (rule replicate_of_mset)
  with s(3-6) have "s = drill_quiz n 0 0" by (simp add: drill_quiz_def)
  with s(1) show ?thesis by simp
qed

lemma choice_2: "choice_index (line ''2'') = Num (of_nat 1)"
  by (simp add: parse_simps)

lemma accepted_2: "accepted (options sample_question) (line ''2'')"
  by (simp add: parse_simps sample_question_def)

lemma reachable_step:
  assumes "reachable s" "currentQuestion s = Some q" "accepted (options q) l"
    "choice_index l = Num (of_nat k)"
  shows "reachable
     (s\<lparr>answers := answers s @
          [\<lparr>question = Question.question q, userAnswer = Num (of_nat k),
            correctAnswer = answer q, isCorrect = (k = answer q)\<rparr>],
        score := (if k = answer q then score s + 1 else score s),
        currentIndex := currentIndex s + 1\<rparr>)"
proof -
  from askQuestion_accepted [OF assms(2,3,4), of "sconst l"] obtain out
    where "askQuestion s (l ## sconst l) =
     Some (k = answer q,
           s\<lparr>answers := answers s @
                [\<lparr>question = Question.question q, userAnswer = Num (of_nat k),
                  correctAnswer = answer q, isCorrect = (k = answer q)\<rparr>],
             score := (if k = answer q then score s + 1 else score s),
             currentIndex := currentIndex s + 1\<rparr>,
           sconst l, out)" ..
  from reachable.ask [OF assms(1) this] show ?thesis .
qed

lemma currentQuestion_drill:
  "a + b < n \<Longrightarrow> currentQuestion (drill_quiz n a b) = Some sample_question"
  by (simp add: currentQuestion_def drill_quiz_def)

lemma reachable_drill_right:
  assumes "n < 2 ^ 32" "a \<le> n"
  shows "reachable (drill_quiz n a 0)"
  using assms(2)
proof (induction a)
  case 0
  show ?case by (rule reachable.new [OF Quiz_new_drill [OF assms(1)]])
next
  case (Suc a)
  then have r: "reachable (drill_quiz n a 0)" and lt: "a + 0 < n" by simp_all
  from reachable_step [OF r currentQuestion_drill [OF lt] accepted_2 choice_2]
  show ?case by (simp add: drill_quiz_def sample_question_def replicate_append_same)
qed

lemma reachable_drill:
  assumes "n < 2 ^ 32" "a + b \<le> n"
  shows "reachable (drill_quiz n a b)"
  using assms(2)
proof (induction b)
  case 0
  then show ?case using reachable_drill_right [OF assms(1)] by simp
next
  case (Suc b)
  then have r: "reachable (drill_quiz n a b)" and lt: "a + b < n" by simp_all
  have acc: "accepted (options sample_question) (line ''1'')"
    by (rule accepted_1) (simp add: sample_question_def)
  from reachable_step [OF r currentQuestion_drill [OF lt] acc choice_1]
  show ?case by (simp add: drill_quiz_def sample_question_def replicate_append_same)
qed

text \<open>
  C3, as the code has it. For every reachable session with at least one question (and
  fewer than \<open>2\<^sup>3\<^sup>2\<close>, the most an array holds) \<^verbatim>\<open>showResults\<close> completes, and the percentage
  of its report is \<^verbatim>\<open>Math.round((score / total) * 100)\<close> in binary64 arithmetic: a whole
  number \<open>p\<close> between 0 and 100 that is \<open>round(100 * score / total)\<close>, or one less than it
  when \<open>100 * score / total\<close> lies exactly halfway between two whole numbers. The message of
  the report is the one of the table at \<open>p\<close>: 100 perfect, 80 to 99 great, 60 to 79 good,
  40 to 59 fair, 0 to 39 needs practice; and \<open>p\<close> lies in the same tier as
  \<open>round(100 * score / total)\<close>. With five questions \<open>p = 20 * score\<close>: 5 of 5 is 100 and
  perfect, 4 of 5 is 80 and great, 3 of 5 is 60 and good, 2 of 5 is 40 and fair, 1 of 5
  is 20 and needs practice.
\<close>

theorem results_tier_follows_table:
  assumes "reachable s" "0 < totalQuestions s" "totalQuestions s < 2 ^ 32"
  shows "\<exists>r p. showResults s = Inr r \<and> final_score r = score s \<and> total r = totalQuestions s
    \<and> percent r = Num (of_nat p) \<and> p \<le> 100
    \<and> (p = spec_percentage (score s) (totalQuestions s)
       \<or> (Suc p = spec_percentage (score s) (totalQuestions s)
          \<and> 200 * score s + totalQuestions s
              = 2 * spec_percentage (score s) (totalQuestions s) * totalQuestions s))
    \<and> map_option message_of (tier_table p) = Some (message r)
    \<and> tier_table p = tier_table (spec_percentage (score s) (totalQuestions s))
    \<and> (totalQuestions s = 5 \<longrightarrow>
         p = 20 * score s
         \<and> (score s = 5 \<longrightarrow> percent r = Num 100 \<and> message r = message_of Perfect)
         \<and> (score s = 4 \<longrightarrow> percent r = Num 80 \<and> message r = message_of Great)
         \<and> (score s = 3 \<longrightarrow> percent r = Num 60 \<and> message r = message_of Good)
         \<and> (score s = 2 \<longrightarrow> percent r = Num 40 \<and> message r = message_of Fair)
         \<and> (score s = 1 \<longrightarrow> percent r = Num 20 \<and> message r = message_of Needs_practice))"
proof -
  from showResults_reachable [OF assms(1)] obtain rs
    where res: "showResults s =
      Inr \<lparr>category = categoryName s, final_score = score s, total = totalQuestions s,
           percent = percentage s, message = performance (percentage s), review = rs\<rparr>" ..
  define r where "r = \<lparr>category = categoryName s, final_score = score s,
      total = totalQuestions s, percent = percentage s,
      message = performance (percentage s), review = rs\<rparr>"
  have r: "showResults s = Inr r" "final_score r = score s" "total r = totalQuestions s"
    "percent r = percentage s" "message r = performance (percentage s)"
    by (simp_all add: r_def res)
  have le: "score s \<le> totalQuestions s"
    using reachable_bounds [OF assms(1)] by (simp add: totalQuestions_def)
  from percent_tier [OF assms(2) le assms(3)] obtain p
    where p: "percentage s = Num (of_nat p)" "p \<le> 100"
      "\<bar>rat_of_nat p - 100 * rat_of_nat (score s) / rat_of_nat (totalQuestions s)\<bar>
        \<le> 1 / 2 + 1 / 2 ^ 44"
      "spec_percentage (score s) (totalQuestions s) \<le> 100"
      "\<forall>m\<in>{40, 60, 80, 100}. m \<le> p \<longleftrightarrow> m \<le> spec_percentage (score s) (totalQuestions s)"
      "p = spec_percentage (score s) (totalQuestions s)
       \<or> (Suc p = spec_percentage (score s) (totalQuestions s)
          \<and> 200 * score s + totalQuestions s
              = 2 * spec_percentage (score s) (totalQuestions s) * totalQuestions s)"
    unfolding percentage_def by blast
  have pr: "percent r = Num (of_nat p)" by (simp only: r(4) p(1))
  have msg: "map_option message_of (tier_table p) = Some (message r)"
    using p(2) by (simp add: r(5) p(1) performance_of_nat tier_table_def)
  have tab: "tier_table p = tier_table (spec_percentage (score s) (totalQuestions s))"
    using p(2,4,5) by (rule tier_table_agree)
  have five: "p = 20 * score s" if "totalQuestions s = 5"
  proof -
    from p(3) that have "\<bar>rat_of_nat p - rat_of_nat (20 * score s)\<bar> \<le> 1 / 2 + 1 / 2 ^ 44"
      by simp
    also have "\<dots> < 1" by simp
    finally have "\<bar>rat_of_int (int p - int (20 * score s))\<bar> < rat_of_int 1" by simp
    then have "\<bar>int p - int (20 * score s)\<bar> < 1"
      by (simp only: of_int_abs [symmetric] of_int_less_iff)
    then show ?thesis by linarith
  qed
  show ?thesis
    apply (rule exI [of _ r], rule exI [of _ p])
    apply (intro conjI r(1,2,3) pr p(2,6) msg tab impI five)
        apply (simp_all add: five pr r(5) p(1) performance_def js_strict_eq_def js_ge_def)
    done
qed

text \<open>C3 at the session of five questions after four right answers and a wrong one: it
  is reachable, and its report says 80 and great.\<close>

theorem results_tier_follows_table_witness:
  "reachable (drill_quiz 5 4 1) \<and> 0 < totalQuestions (drill_quiz 5 4 1)
   \<and> totalQuestions (drill_quiz 5 4 1) < 2 ^ 32
   \<and> totalQuestions (drill_quiz 5 4 1) = 5 \<and> score (drill_quiz 5 4 1) = 4
   \<and> (\<exists>r. showResults (drill_quiz 5 4 1) = Inr r \<and> final_score r = 4 \<and> total r = 5
        \<and> percent r = Num 80 \<and> message r = ''Great job! Well done!'')"
proof -
  have h: "reachable (drill_quiz 5 4 1)" "0 < totalQuestions (drill_quiz 5 4 1)"
    "totalQuestions (drill_quiz 5 4 1) < 2 ^ 32"
    and v: "totalQuestions (drill_quiz 5 4 1) = 5" "score (drill_quiz 5 4 1) = 4"
    by (simp_all add: reachable_drill) (simp_all add: drill_quiz_def totalQuestions_def)
  from results_tier_follows_table [OF h] v h show ?thesis by auto
qed

text \<open>
  C3 as the specification words it fails at the session of forty questions after 23 right
  answers and 17 wrong ones: \<open>100 * 23 / 40\<close> is 57.5 and rounds to 58, and the report says
  57, since \<open>23 / 40\<close> in binary64 times 100 is below 57.5. The tier is the same: fair.
\<close>

theorem results_percentage_counterexample:
  "reachable (drill_quiz 40 23 17)
   \<and> score (drill_quiz 40 23 17) = 23 \<and> totalQuestions (drill_quiz 40 23 17) = 40
   \<and> spec_percentage 23 40 = 58
   \<and> (case showResults (drill_quiz 40 23 17) of
        Inl e \<Rightarrow> False
      | Inr r \<Rightarrow> final_score r = 23 \<and> total r = 40 \<and> percent r = Num 57
                 \<and> message r = ''Not bad! Room for improvement.'')"
proof -
  let ?s = "drill_quiz 40 23 17"
  have r: "reachable ?s" by (simp add: reachable_drill)
  have v: "score ?s = 23" "totalQuestions ?s = 40"
    by (simp_all add: drill_quiz_def totalQuestions_def)
  from percentage_tie_below [OF v] v have p: "percentage ?s = Num 57" "spec_percentage 23 40 = 58"
    by simp_all
  from showResults_reachable [OF r] obtain rs
    where "showResults ?s =
      Inr \<lparr>category = categoryName ?s, final_score = score ?s, total = totalQuestions ?s,
           percent = percentage ?s, message = performance (percentage ?s), review = rs\<rparr>" ..
  then have "case showResults ?s of
        Inl e \<Rightarrow> False
      | Inr r \<Rightarrow> final_score r = 23 \<and> total r = 40 \<and> percent r = Num 57
                 \<and> message r = ''Not bad! Room for improvement.''"
    by (simp add: v p(1) performance_def js_strict_eq_def js_ge_def)
  with r v p(2) show ?thesis by simp
qed

end
